theory Spec2Isabelle
  imports Complex_Main "HOL-Library.List_Lexorder" "HOL-Library.Char_ord"
begin

section \<open>The document tree (the part of pugixml the generator uses)\<close>

text \<open>
  A \<^verbatim>\<open>pugi::xml_node\<close> is a handle that may be null. Every accessor is total:
  on a null handle \<^verbatim>\<open>child\<close> gives a null handle, \<^verbatim>\<open>children\<close> an empty range and
  \<^verbatim>\<open>attribute(..).value()\<close> the empty string.
\<close>

datatype xml_node =
    Null
  | PCData string
  | Element string "(string \<times> string) list" "xml_node list"

fun node_kids :: "xml_node \<Rightarrow> xml_node list" where
  "node_kids (Element t as ks) = ks"
| "node_kids n = []"

fun node_attrs :: "xml_node \<Rightarrow> (string \<times> string) list" where
  "node_attrs (Element t as ks) = as"
| "node_attrs n = []"

definition is_element :: "string \<Rightarrow> xml_node \<Rightarrow> bool" where
  "is_element t n = (case n of Element t' as ks \<Rightarrow> t' = t | _ \<Rightarrow> False)"

definition children :: "xml_node \<Rightarrow> string \<Rightarrow> xml_node list" where
  \<comment> \<open>\<^verbatim>\<open>n.children(name)\<close>: the child elements of that name, in document order\<close>
  "children n t = filter (is_element t) (node_kids n)"

definition child :: "xml_node \<Rightarrow> string \<Rightarrow> xml_node" where
  \<comment> \<open>\<^verbatim>\<open>n.child(name)\<close>: the first such child, or the null handle\<close>
  "child n t = (case children n t of [] \<Rightarrow> Null | k # ks \<Rightarrow> k)"

definition attribute_value :: "xml_node \<Rightarrow> string \<Rightarrow> string" where
  \<comment> \<open>\<^verbatim>\<open>n.attribute(name).value()\<close>: the empty string when there is no such attribute\<close>
  "attribute_value n a = (case map_of (node_attrs n) a of None \<Rightarrow> [] | Some v \<Rightarrow> v)"

fun is_pcdata :: "xml_node \<Rightarrow> bool" where
  "is_pcdata (PCData s) = True"
| "is_pcdata n = False"

definition text_get :: "xml_node \<Rightarrow> string" where
  \<comment> \<open>\<^verbatim>\<open>n.text().get()\<close> and \<^verbatim>\<open>n.child_value()\<close>: the first character-data child\<close>
  "text_get n = (case filter is_pcdata (node_kids n) of PCData s # ks \<Rightarrow> s | _ \<Rightarrow> [])"

definition child_value :: "xml_node \<Rightarrow> string \<Rightarrow> string" where
  "child_value n t = text_get (child n t)"

definition is_null :: "xml_node \<Rightarrow> bool" where
  "is_null n = (n = Null)"


lemma children_Null [simp]: "children Null t = []"
  by (simp add: children_def)

lemma child_Null [simp]: "child Null t = Null"
  by (simp add: child_def)


section \<open>The regime-ID table\<close>

text \<open>
  \<^verbatim>\<open>std::map<std::string, unsigned int>\<close>, kept as an association list with distinct
  keys; the table is only looked up and measured, never iterated, so the order of
  the entries is not observable. \<^verbatim>\<open>insert\<close> leaves an existing key alone;
  \<^verbatim>\<open>operator[]\<close> adds a missing key with the value-initialised \<^verbatim>\<open>0\<close>.
  The size is a \<^verbatim>\<open>size_t\<close> stored into an \<^verbatim>\<open>unsigned int\<close>.
\<close>

type_synonym regime_ids = "(string \<times> nat) list"

definition to_uint :: "nat \<Rightarrow> nat" where
  "to_uint n = n mod 4294967296"

definition map_insert :: "regime_ids \<Rightarrow> string \<times> nat \<Rightarrow> regime_ids" where
  "map_insert m kv = (case map_of m (fst kv) of None \<Rightarrow> m @ [kv] | Some v \<Rightarrow> m)"

definition map_index :: "regime_ids \<Rightarrow> string \<Rightarrow> nat \<times> regime_ids" where
  \<comment> \<open>\<^verbatim>\<open>m[k]\<close>: the value and the table afterwards\<close>
  "map_index m k = (case map_of m k of None \<Rightarrow> (0, m @ [(k, 0)]) | Some v \<Rightarrow> (v, m))"

definition regime_names :: "xml_node \<Rightarrow> string list" where
  "regime_names dynamics = map (\<lambda>n. attribute_value n ''name'') (children dynamics ''Regime'')"

definition buildRegimeIDs :: "xml_node \<Rightarrow> regime_ids" where
  \<comment> \<open>the \<^verbatim>\<open>std::transform\<close> through \<^verbatim>\<open>std::inserter\<close>: each Regime offers
     the pair of its name and the table's size at that moment\<close>
  "buildRegimeIDs dynamics =
     foldl (\<lambda>m name. map_insert m (name, to_uint (length m))) [] (regime_names dynamics)"

definition lookup0 :: "regime_ids \<Rightarrow> string \<Rightarrow> nat" where
  "lookup0 m k = fst (map_index m k)"


lemmas eval_xml = child_def children_def is_element_def attribute_value_def is_null_def
  regime_names_def text_get_def child_value_def


section \<open>Regime table: properties\<close>

lemma map_of_map_insert:
  "map_of (map_insert m (k, v)) = (case map_of m k of None \<Rightarrow> (map_of m)(k \<mapsto> v) | Some w \<Rightarrow> map_of m)"
  by (auto simp: map_insert_def fun_eq_iff map_add_def split: option.splits)

text \<open>The fold of the table construction, from any starting table.\<close>

definition ins_names :: "regime_ids \<Rightarrow> string list \<Rightarrow> regime_ids" where
  "ins_names m ns = foldl (\<lambda>m name. map_insert m (name, to_uint (length m))) m ns"

lemma ins_names_Nil [simp]: "ins_names m [] = m" by (simp add: ins_names_def)
lemma ins_names_Cons [simp]: "ins_names m (n # ns) = ins_names (map_insert m (n, to_uint (length m))) ns"
  by (simp add: ins_names_def)
lemma ins_names_append: "ins_names m (xs @ ys) = ins_names (ins_names m xs) ys"
  by (simp add: ins_names_def)

lemma map_insert_keys: "fst ` set (map_insert m (k, v)) = insert k (fst ` set m)"
  by (auto simp: map_insert_def map_of_eq_None_iff rev_image_eqI split: option.splits dest!: map_of_SomeD)

lemma map_insert_distinct: "distinct (map fst m) \<Longrightarrow> distinct (map fst (map_insert m (k, v)))"
  by (auto simp: map_insert_def map_of_eq_None_iff split: option.splits)

lemma map_insert_keep: "map_of m k = Some v \<Longrightarrow> map_of (map_insert m kv) k = Some v"
  by (cases kv) (auto simp: map_of_map_insert split: option.splits)

lemma ins_names_keys: "fst ` set (ins_names m ns) = fst ` set m \<union> set ns"
  by (induction ns arbitrary: m) (auto simp: map_insert_keys)

lemma ins_names_distinct: "distinct (map fst m) \<Longrightarrow> distinct (map fst (ins_names m ns))"
  by (induction ns arbitrary: m) (auto simp: map_insert_distinct)

lemma ins_names_keep: "map_of m k = Some v \<Longrightarrow> map_of (ins_names m ns) k = Some v"
  by (induction ns arbitrary: m) (auto simp: map_insert_keep)

lemma ins_names_length: "length (ins_names [] ns) = card (set ns)"
proof -
  have "distinct (map fst (ins_names [] ns))" by (simp add: ins_names_distinct)
  then have "card (set (map fst (ins_names [] ns))) = length (ins_names [] ns)"
    using distinct_card by fastforce
  then show ?thesis by (simp add: ins_names_keys)
qed

lemma first_seen_id:
  assumes "card (set ns) \<le> 4294967296" "i < length ns" "ns ! i \<notin> set (take i ns)"
  shows "map_of (ins_names [] ns) (ns ! i) = Some (card (set (take i ns)))"
proof -
  let ?m = "ins_names [] (take i ns)"
  have split: "ns = take i ns @ ns ! i # drop (Suc i) ns"
    using assms(2) by (simp add: id_take_nth_drop)
  have "card (set (take i ns)) < card (insert (ns ! i) (set (take i ns)))"
    using assms(3) by simp
  also have "\<dots> \<le> card (set ns)"
    by (rule card_mono) (use assms(2) in \<open>auto dest: in_set_takeD\<close>)
  finally have small: "length ?m < 4294967296"
    using assms(1) by (simp add: ins_names_length)
  have absent: "map_of ?m (ns ! i) = None"
    using assms(3) ins_names_keys [of "[]" "take i ns"] by (simp add: map_of_eq_None_iff)
  have "map_of (map_insert ?m (ns ! i, to_uint (length ?m))) (ns ! i) = Some (length ?m)"
    using absent small by (simp add: map_of_map_insert to_uint_def)
  then have "map_of (ins_names ?m (ns ! i # drop (Suc i) ns)) (ns ! i) = Some (length ?m)"
    by (simp add: ins_names_keep)
  then have "map_of (ins_names [] (take i ns @ ns ! i # drop (Suc i) ns)) (ns ! i) = Some (length ?m)"
    by (simp only: ins_names_append)
  then show ?thesis using split by (simp add: ins_names_length)
qed

lemma ins_names_snoc: "ins_names m (ns @ [x]) = map_insert (ins_names m ns) (x, to_uint (length (ins_names m ns)))"
  by (simp add: ins_names_append)

lemma ins_names_values:
  "card (set ns) \<le> 4294967296 \<Longrightarrow> map snd (ins_names [] ns) = [0..<length (ins_names [] ns)]"
proof (induction ns rule: rev_induct)
  case Nil
  then show ?case by simp
next
  case (snoc x ns)
  let ?m = "ins_names [] ns"
  have le: "card (set ns) \<le> card (set (ns @ [x]))" by (rule card_mono) auto
  then have IH: "map snd ?m = [0..<length ?m]" using snoc by simp
  show ?case
  proof (cases "x \<in> set ns")
    case True
    then have "map_of ?m x \<noteq> None"
      using ins_names_keys [of "[]" ns] by (simp add: map_of_eq_None_iff)
    then have "map_insert ?m (x, to_uint (length ?m)) = ?m"
      by (auto simp: map_insert_def)
    then show ?thesis using IH by (simp add: ins_names_snoc)
  next
    case False
    then have none: "map_of ?m x = None"
      using ins_names_keys [of "[]" ns] by (simp add: map_of_eq_None_iff)
    have "card (set (ns @ [x])) = Suc (card (set ns))" using False by simp
    then have "length ?m < 4294967296" using snoc.prems by (simp add: ins_names_length)
    then have "map_insert ?m (x, to_uint (length ?m)) = ?m @ [(x, length ?m)]"
      using none by (simp add: map_insert_def to_uint_def)
    then show ?thesis using IH by (simp add: ins_names_snoc)
  qed
qed

lemma map_of_image_distinct:
  "distinct (map fst m) \<Longrightarrow> map_of m ` fst ` set m = Some ` snd ` set m"
proof (induction m)
  case Nil
  then show ?case by simp
next
  case (Cons p m)
  obtain k v where p: "p = (k, v)" by (cases p)
  have "k \<notin> fst ` set m" using Cons.prems p by simp
  then have "map_of (p # m) ` fst ` set m = map_of m ` fst ` set m"
    using p by (intro image_cong) auto
  then show ?case using Cons p by (simp add: image_image)
qed

lemma map_of_inj_distinct:
  assumes "distinct (map fst m)" "distinct (map snd m)"
  shows "inj_on (map_of m) (fst ` set m)"
proof (rule inj_onI)
  fix a b assume a: "a \<in> fst ` set m" and b: "b \<in> fst ` set m" and eq: "map_of m a = map_of m b"
  from a obtain v where av: "(a, v) \<in> set m" by force
  then have "map_of m a = Some v" using assms(1) by simp
  then have "(b, v) \<in> set m" using eq by (simp add: map_of_SomeD)
  moreover have "inj_on snd (set m)" using assms(2) by (simp add: distinct_map)
  ultimately have "(a, v) = (b, v)" using av inj_onD [of snd "set m" "(a, v)" "(b, v)"] by simp
  then show "a = b" by simp
qed

lemma buildRegimeIDs_ins: "buildRegimeIDs d = ins_names [] (regime_names d)"
  by (simp add: buildRegimeIDs_def ins_names_def)

text \<open>
  Claim C7. The regime-ID table is a bijection between the distinct regime names and
  the IDs \<open>0..n-1\<close>, and the ID of a name is the number of distinct names before
  its first occurrence in the document (as long as the count fits an unsigned int).
\<close>

theorem regime_ids_dense_first_seen:
  assumes "card (set (regime_names d)) \<le> 4294967296"
  shows "dom (map_of (buildRegimeIDs d)) = set (regime_names d)
       \<and> inj_on (map_of (buildRegimeIDs d)) (set (regime_names d))
       \<and> map_of (buildRegimeIDs d) ` set (regime_names d) = Some ` {0..<card (set (regime_names d))}
       \<and> (\<forall>i<length (regime_names d). regime_names d ! i \<notin> set (take i (regime_names d)) \<longrightarrow>
             map_of (buildRegimeIDs d) (regime_names d ! i) = Some (card (set (take i (regime_names d)))))"
proof -
  let ?ns = "regime_names d" and ?T = "ins_names [] (regime_names d)"
  have keys: "fst ` set ?T = set ?ns" by (simp add: ins_names_keys)
  have dist: "distinct (map fst ?T)" by (simp add: ins_names_distinct)
  have vals: "map snd ?T = [0..<card (set ?ns)]"
    using ins_names_values [OF assms] by (simp add: ins_names_length)
  have "dom (map_of ?T) = set ?ns" using keys by (simp add: dom_map_of_conv_image_fst)
  moreover have "inj_on (map_of ?T) (set ?ns)"
    using map_of_inj_distinct [OF dist] vals keys by simp
  moreover have "map_of ?T ` set ?ns = Some ` {0..<card (set ?ns)}"
  proof -
    have "snd ` set ?T = set (map snd ?T)" by simp
    then have "snd ` set ?T = {0..<card (set ?ns)}" by (simp only: vals set_upt)
    then show ?thesis using map_of_image_distinct [OF dist] keys by simp
  qed
  moreover have "\<forall>i<length ?ns. ?ns ! i \<notin> set (take i ?ns) \<longrightarrow>
      map_of ?T (?ns ! i) = Some (card (set (take i ?ns)))"
    using first_seen_id [OF assms] by blast
  ultimately show ?thesis by (simp only: buildRegimeIDs_ins)
qed

definition two_regimes :: xml_node where
  "two_regimes = Element ''Dynamics'' []
     [Element ''Regime'' [(''name'', ''B'')] [], Element ''Regime'' [(''name'', ''A'')] [],
      Element ''Regime'' [(''name'', ''B'')] []]"

lemma two_regimes_names: "regime_names two_regimes = [''B'', ''A'', ''B'']"
  by (simp add: two_regimes_def regime_names_def children_def is_element_def attribute_value_def)


theorem regime_ids_dense_first_seen_witness:
  "card (set (regime_names two_regimes)) \<le> 4294967296
   \<and> map_of (buildRegimeIDs two_regimes) ''B'' = Some 0
   \<and> map_of (buildRegimeIDs two_regimes) ''A'' = Some 1"
proof -
  have c: "card (set (regime_names two_regimes)) = 2"
    by (simp add: two_regimes_names card_insert_if)
  then have h: "card (set (regime_names two_regimes)) \<le> 4294967296" by simp
  note t = regime_ids_dense_first_seen [OF h]
  from t have all: "\<forall>i<length (regime_names two_regimes). regime_names two_regimes ! i \<notin> set (take i (regime_names two_regimes)) \<longrightarrow>
             map_of (buildRegimeIDs two_regimes) (regime_names two_regimes ! i) = Some (card (set (take i (regime_names two_regimes))))"
    by blast
  have b: "map_of (buildRegimeIDs two_regimes) ''B'' = Some 0"
    using all [rule_format, of 0] by (simp add: two_regimes_names)
  have a: "map_of (buildRegimeIDs two_regimes) ''A'' = Some 1"
    using all [rule_format, of 1] by (simp add: two_regimes_names)
  from h a b show ?thesis by blast
qed


section \<open>Regime traversal: \<^verbatim>\<open>generateModelCode\<close>\<close>

text \<open>
  The object handlers and the regime-end function are callbacks of the caller. They
  are state transformers that may throw: \<open>Inl\<close> is the exception, which ends the
  traversal. The traversal itself has no \<^verbatim>\<open>throw\<close>. The table is threaded through
  because \<^verbatim>\<open>regimeIDs[name]\<close> may add to it.
\<close>

datatype role = Event | Condition | Impulse | TimeDerivative

type_synonym ('s, 'e) object_handler = "xml_node \<Rightarrow> nat \<Rightarrow> nat \<Rightarrow> 's \<Rightarrow> 'e + 's"

type_synonym ('s, 'e) regime_end = "bool \<Rightarrow> nat \<Rightarrow> 's \<Rightarrow> 'e + 's"

text \<open>
  The loops over OnCondition, OnEvent and OnImpulse have the same body: look the
  target up with \<^verbatim>\<open>operator[]\<close>, call the handler.
\<close>

fun transitions ::
  "('s, 'e) object_handler \<Rightarrow> nat \<Rightarrow> xml_node list \<Rightarrow> regime_ids \<Rightarrow> 's \<Rightarrow> 'e + (regime_ids \<times> 's)" where
  "transitions h currentRegimeID [] regimeIDs s = Inr (regimeIDs, s)"
| "transitions h currentRegimeID (t # ts) regimeIDs s =
     (case map_index regimeIDs (attribute_value t ''target_regime'') of
        (targetRegimeID, regimeIDs') \<Rightarrow>
          (case h t currentRegimeID targetRegimeID s of
             Inl e \<Rightarrow> Inl e
           | Inr s' \<Rightarrow> transitions h currentRegimeID ts regimeIDs' s'))"

text \<open>The loop over TimeDerivative passes the literal \<^verbatim>\<open>0\<close> as target.\<close>

fun derivatives :: "('s, 'e) object_handler \<Rightarrow> nat \<Rightarrow> xml_node list \<Rightarrow> 's \<Rightarrow> 'e + 's" where
  "derivatives h currentRegimeID [] s = Inr s"
| "derivatives h currentRegimeID (t # ts) s =
     (case h t currentRegimeID 0 s of
        Inl e \<Rightarrow> Inl e
      | Inr s' \<Rightarrow> derivatives h currentRegimeID ts s')"

fun regimes_loop ::
  "('s, 'e) object_handler \<Rightarrow> ('s, 'e) object_handler \<Rightarrow> ('s, 'e) object_handler \<Rightarrow>
   ('s, 'e) object_handler \<Rightarrow> ('s, 'e) regime_end \<Rightarrow> bool \<Rightarrow> xml_node list \<Rightarrow> regime_ids \<Rightarrow> 's \<Rightarrow>
   'e + (regime_ids \<times> 's)" where
  "regimes_loop hEvent hCondition hImpulse hTimeDerivative regimeEndFunc multipleRegimes [] regimeIDs s =
     Inr (regimeIDs, s)"
| "regimes_loop hEvent hCondition hImpulse hTimeDerivative regimeEndFunc multipleRegimes (regime # rs) regimeIDs s =
     (case map_index regimeIDs (attribute_value regime ''name'') of
        (currentRegimeID, ids1) \<Rightarrow>
     (case transitions hCondition currentRegimeID (children regime ''OnCondition'') ids1 s of
        Inl e \<Rightarrow> Inl e
      | Inr (ids2, s2) \<Rightarrow>
     (case transitions hEvent currentRegimeID (children regime ''OnEvent'') ids2 s2 of
        Inl e \<Rightarrow> Inl e
      | Inr (ids3, s3) \<Rightarrow>
     (case transitions hImpulse currentRegimeID (children regime ''OnImpulse'') ids3 s3 of
        Inl e \<Rightarrow> Inl e
      | Inr (ids4, s4) \<Rightarrow>
     (case derivatives hTimeDerivative currentRegimeID (children regime ''TimeDerivative'') s4 of
        Inl e \<Rightarrow> Inl e
      | Inr s5 \<Rightarrow>
     (case regimeEndFunc multipleRegimes currentRegimeID s5 of
        Inl e \<Rightarrow> Inl e
      | Inr s6 \<Rightarrow>
          regimes_loop hEvent hCondition hImpulse hTimeDerivative regimeEndFunc multipleRegimes rs ids4 s6))))))"

definition generateModelCode ::
  "xml_node \<Rightarrow> ('s, 'e) object_handler \<Rightarrow> ('s, 'e) object_handler \<Rightarrow> ('s, 'e) object_handler \<Rightarrow>
   ('s, 'e) object_handler \<Rightarrow> ('s, 'e) regime_end \<Rightarrow> 's \<Rightarrow> 'e + (bool \<times> 's)" where
  "generateModelCode componentClass objectHandlerEvent objectHandlerCondition objectHandlerImpulse
       objectHandlerTimeDerivative regimeEndFunc s =
     (let dynamics = child componentClass ''Dynamics'';
          regimeIDs = buildRegimeIDs dynamics;
          multipleRegimes = (length regimeIDs > 1)
      in case regimes_loop objectHandlerEvent objectHandlerCondition objectHandlerImpulse
                objectHandlerTimeDerivative regimeEndFunc multipleRegimes
                (children dynamics ''Regime'') regimeIDs s of
           Inl e \<Rightarrow> Inl e
         | Inr (ids, s') \<Rightarrow> Inr (multipleRegimes, s'))"

subsection \<open>The traversal as a sequence of callback invocations\<close>

fun seq :: "('s \<Rightarrow> 'e + 's) list \<Rightarrow> 's \<Rightarrow> 'e + 's" where
  "seq [] s = Inr s"
| "seq (f # fs) s = (case f s of Inl e \<Rightarrow> Inl e | Inr s' \<Rightarrow> seq fs s')"

definition regime_steps ::
  "('s, 'e) object_handler \<Rightarrow> ('s, 'e) object_handler \<Rightarrow> ('s, 'e) object_handler \<Rightarrow>
   ('s, 'e) object_handler \<Rightarrow> ('s, 'e) regime_end \<Rightarrow> regime_ids \<Rightarrow> bool \<Rightarrow> xml_node \<Rightarrow>
   ('s \<Rightarrow> 'e + 's) list" where
  "regime_steps hEvent hCondition hImpulse hTimeDerivative regimeEndFunc T multi r =
     (let cur = lookup0 T (attribute_value r ''name'') in
      map (\<lambda>t. hCondition t cur (lookup0 T (attribute_value t ''target_regime''))) (children r ''OnCondition'')
    @ map (\<lambda>t. hEvent t cur (lookup0 T (attribute_value t ''target_regime''))) (children r ''OnEvent'')
    @ map (\<lambda>t. hImpulse t cur (lookup0 T (attribute_value t ''target_regime''))) (children r ''OnImpulse'')
    @ map (\<lambda>t. hTimeDerivative t cur 0) (children r ''TimeDerivative'')
    @ [regimeEndFunc multi cur])"

definition same_ids :: "regime_ids \<Rightarrow> regime_ids \<Rightarrow> bool" where
  "same_ids a b = (\<forall>k. lookup0 a k = lookup0 b k)"

lemma same_ids_refl [simp]: "same_ids a a" by (simp add: same_ids_def)

lemma map_index_fst: "fst (map_index m k) = lookup0 m k" by (simp add: lookup0_def)

lemma map_index_same: "same_ids (snd (map_index m k)) m"
  by (auto simp: same_ids_def lookup0_def map_index_def split: option.splits if_splits)

lemma same_ids_trans: "same_ids a b \<Longrightarrow> same_ids b c \<Longrightarrow> same_ids a c"
  by (simp add: same_ids_def)

lemma map_index_cases:
  assumes "same_ids ids T"
  obtains ids' where "map_index ids k = (lookup0 T k, ids')" "same_ids ids' T"
proof -
  have "map_index ids k = (lookup0 T k, snd (map_index ids k))"
    using assms map_index_fst [of ids k] by (simp add: same_ids_def prod_eq_iff)
  moreover have "same_ids (snd (map_index ids k)) T"
    using map_index_same assms by (rule same_ids_trans)
  ultimately show ?thesis using that by blast
qed

lemma seq_append: "seq (fs @ gs) s = (case seq fs s of Inl e \<Rightarrow> Inl e | Inr s' \<Rightarrow> seq gs s')"
  by (induction fs arbitrary: s) (auto split: sum.splits)


definition ids_after :: "regime_ids \<Rightarrow> xml_node list \<Rightarrow> regime_ids" where
  "ids_after ids ts = foldl (\<lambda>m t. snd (map_index m (attribute_value t ''target_regime''))) ids ts"

lemma ids_after_same: "same_ids ids T \<Longrightarrow> same_ids (ids_after ids ts) T"
  unfolding ids_after_def
  by (induction ts arbitrary: ids) (auto intro: same_ids_trans [OF map_index_same])

lemma transitions_seq:
  "same_ids ids T \<Longrightarrow>
     transitions h cur ts ids s =
       (case seq (map (\<lambda>t. h t cur (lookup0 T (attribute_value t ''target_regime''))) ts) s of
          Inl e \<Rightarrow> Inl e | Inr s' \<Rightarrow> Inr (ids_after ids ts, s'))"
proof (induction ts arbitrary: ids s)
  case Nil
  then show ?case by (simp add: ids_after_def)
next
  case (Cons t ts)
  from Cons.prems obtain ids1 where
    mi: "map_index ids (attribute_value t ''target_regime'') = (lookup0 T (attribute_value t ''target_regime''), ids1)"
    and s1: "same_ids ids1 T" by (rule map_index_cases)
  have after: "ids_after ids (t # ts) = ids_after ids1 ts" using mi by (simp add: ids_after_def)
  show ?case
  proof (cases "h t cur (lookup0 T (attribute_value t ''target_regime'')) s")
    case (Inl e)
    then show ?thesis using mi by simp
  next
    case (Inr s')
    from Cons.IH [OF s1, of s'] show ?thesis unfolding after using mi Inr by simp
  qed
qed

lemma derivatives_seq: "derivatives h cur ts s = seq (map (\<lambda>t. h t cur 0) ts) s"
  by (induction ts arbitrary: s) (auto split: sum.splits)

lemma regimes_loop_seq:
  "same_ids ids T \<Longrightarrow>
   \<exists>ids'. regimes_loop hE hC hI hT endf multi rs ids s =
     (case seq (concat (map (regime_steps hE hC hI hT endf T multi) rs)) s of
        Inl e \<Rightarrow> Inl e | Inr s' \<Rightarrow> Inr (ids', s'))"
proof (induction rs arbitrary: ids s)
  case Nil
  then show ?case by simp
next
  case (Cons r rs)
  let ?cur = "lookup0 T (attribute_value r ''name'')"
  from Cons.prems obtain ids1 where
    mi: "map_index ids (attribute_value r ''name'') = (?cur, ids1)"
    and s1: "same_ids ids1 T" by (rule map_index_cases)
  let ?ids2 = "ids_after ids1 (children r ''OnCondition'')"
  let ?ids3 = "ids_after ?ids2 (children r ''OnEvent'')"
  let ?ids4 = "ids_after ?ids3 (children r ''OnImpulse'')"
  have s2: "same_ids ?ids2 T" using s1 by (rule ids_after_same)
  have s3: "same_ids ?ids3 T" using s2 by (rule ids_after_same)
  have s4: "same_ids ?ids4 T" using s3 by (rule ids_after_same)
  note IH = Cons.IH [OF s4]
  show ?case
    using IH
    by (simp add: mi transitions_seq [OF s1] transitions_seq [OF s2] transitions_seq [OF s3]
        derivatives_seq regime_steps_def Let_def seq_append split: sum.splits)
qed

lemma generateModelCode_seq:
  "generateModelCode cc hE hC hI hT endf s =
     (case seq (concat (map (regime_steps hE hC hI hT endf (buildRegimeIDs (child cc ''Dynamics''))
                               (1 < length (buildRegimeIDs (child cc ''Dynamics''))))
                            (children (child cc ''Dynamics'') ''Regime''))) s of
        Inl e \<Rightarrow> Inl e
      | Inr s' \<Rightarrow> Inr (1 < length (buildRegimeIDs (child cc ''Dynamics'')), s'))"
proof -
  have "\<exists>ids'. regimes_loop hE hC hI hT endf (1 < length (buildRegimeIDs (child cc ''Dynamics'')))
       (children (child cc ''Dynamics'') ''Regime'') (buildRegimeIDs (child cc ''Dynamics'')) s =
     (case seq (concat (map (regime_steps hE hC hI hT endf (buildRegimeIDs (child cc ''Dynamics''))
                               (1 < length (buildRegimeIDs (child cc ''Dynamics''))))
                            (children (child cc ''Dynamics'') ''Regime''))) s of
        Inl e \<Rightarrow> Inl e | Inr s' \<Rightarrow> Inr (ids', s'))"
    by (rule regimes_loop_seq [OF same_ids_refl])
  then show ?thesis
    by (auto simp: generateModelCode_def Let_def split: sum.splits)
qed

subsection \<open>Recording callbacks\<close>

text \<open>
  Callbacks that never throw and append what they were called with: the state is the
  list of invocations so far.
\<close>

datatype call = OnObject role xml_node nat nat | RegimeEnd bool nat

definition record_object :: "role \<Rightarrow> (call list, unit) object_handler" where
  "record_object k node currentRegimeID targetRegimeID calls =
     Inr (calls @ [OnObject k node currentRegimeID targetRegimeID])"

definition record_end :: "(call list, unit) regime_end" where
  "record_end multipleRegimes currentRegimeID calls = Inr (calls @ [RegimeEnd multipleRegimes currentRegimeID])"

definition trace_of :: "xml_node \<Rightarrow> unit + (bool \<times> call list)" where
  "trace_of componentClass =
     generateModelCode componentClass (record_object Event) (record_object Condition)
       (record_object Impulse) (record_object TimeDerivative) record_end []"

fun is_derivative_call :: "call \<Rightarrow> bool" where
  "is_derivative_call (OnObject TimeDerivative n c t) = True"
| "is_derivative_call c = False"

definition ghost_condition :: xml_node where
  "ghost_condition = Element ''OnCondition'' [(''target_regime'', ''Ghost'')]
     [Element ''Trigger'' [] [Element ''MathInline'' [] [PCData ''V > 1'']]]"

definition ghost_component :: xml_node where
  "ghost_component = Element ''ComponentClass'' [(''name'', ''N''), (''type'', ''neuron_body'')]
     [Element ''Dynamics'' []
        [Element ''Regime'' [(''name'', ''A'')] [ghost_condition],
         Element ''Regime'' [(''name'', ''B'')] []]]"

definition decay :: xml_node where
  "decay = Element ''TimeDerivative'' [(''variable'', ''V'')] [Element ''MathInline'' [] [PCData ''-V'']]"

definition decay_component :: xml_node where
  "decay_component = Element ''ComponentClass'' [(''name'', ''N''), (''type'', ''neuron_body'')]
     [Element ''Dynamics'' []
        [Element ''Regime'' [(''name'', ''A'')] [],
         Element ''Regime'' [(''name'', ''B'')] [decay]]]"

definition regime_calls :: "regime_ids \<Rightarrow> bool \<Rightarrow> xml_node \<Rightarrow> call list" where
  "regime_calls T multi r =
     (let cur = lookup0 T (attribute_value r ''name'') in
      map (\<lambda>t. OnObject Condition t cur (lookup0 T (attribute_value t ''target_regime''))) (children r ''OnCondition'')
    @ map (\<lambda>t. OnObject Event t cur (lookup0 T (attribute_value t ''target_regime''))) (children r ''OnEvent'')
    @ map (\<lambda>t. OnObject Impulse t cur (lookup0 T (attribute_value t ''target_regime''))) (children r ''OnImpulse'')
    @ map (\<lambda>t. OnObject TimeDerivative t cur 0) (children r ''TimeDerivative'')
    @ [RegimeEnd multi cur])"

lemma seq_record_object:
  "seq (map (\<lambda>t. record_object k t cur (f t)) ts) calls = Inr (calls @ map (\<lambda>t. OnObject k t cur (f t)) ts)"
  by (induction ts arbitrary: calls) (simp_all add: record_object_def)

lemma seq_record_regime:
  "seq (regime_steps (record_object Event) (record_object Condition) (record_object Impulse)
          (record_object TimeDerivative) record_end T multi r) calls
   = Inr (calls @ regime_calls T multi r)"
  by (simp add: regime_steps_def regime_calls_def Let_def seq_append seq_record_object record_end_def)

lemma seq_record_regimes:
  "seq (concat (map (regime_steps (record_object Event) (record_object Condition) (record_object Impulse)
          (record_object TimeDerivative) record_end T multi) rs)) calls
   = Inr (calls @ concat (map (regime_calls T multi) rs))"
  by (induction rs arbitrary: calls) (simp_all add: seq_append seq_record_regime)

lemma trace_of_calls:
  "trace_of cc =
     Inr (1 < length (buildRegimeIDs (child cc ''Dynamics'')),
          concat (map (regime_calls (buildRegimeIDs (child cc ''Dynamics''))
                         (1 < length (buildRegimeIDs (child cc ''Dynamics''))))
                      (children (child cc ''Dynamics'') ''Regime'')))"
  by (simp add: trace_of_def generateModelCode_seq seq_record_regimes)

lemma lookup0_unknown:
  "k \<notin> set (regime_names d) \<Longrightarrow> lookup0 (buildRegimeIDs d) k = 0"
proof -
  assume "k \<notin> set (regime_names d)"
  then have "k \<notin> fst ` set (buildRegimeIDs d)"
    by (simp add: buildRegimeIDs_ins ins_names_keys)
  then have "map_of (buildRegimeIDs d) k = None" by (simp add: map_of_eq_None_iff)
  then show ?thesis by (simp add: lookup0_def map_index_def)
qed

text \<open>
  Claim C1, as stated, fails: a transition to the unknown regime \<open>Ghost\<close> raises no
  error. The traversal completes and the condition handler is invoked with target ID 0.
\<close>

theorem ghost_target_counterexample:
  "''Ghost'' \<notin> set (regime_names (child ghost_component ''Dynamics''))
   \<and> trace_of ghost_component =
       Inr (True, [OnObject Condition ghost_condition 0 0, RegimeEnd True 0, RegimeEnd True 1])"
  by (simp add: trace_of_calls ghost_component_def decay_component_def child_def children_def is_element_def
      regime_names_def attribute_value_def buildRegimeIDs_def map_insert_def to_uint_def regime_calls_def
      lookup0_def map_index_def ghost_condition_def decay_def)

text \<open>
  Claim C2, as stated, fails: the TimeDerivative of the regime with ID 1 is handed
  to the derivative handler with targetRegimeID 0, not 1.
\<close>

theorem derivative_target_counterexample:
  "trace_of decay_component =
     Inr (True, [RegimeEnd True 0, OnObject TimeDerivative decay 1 0, RegimeEnd True 1])
   \<and> (0::nat) \<noteq> 1"
  by (simp add: trace_of_calls ghost_component_def decay_component_def child_def children_def is_element_def
      regime_names_def attribute_value_def buildRegimeIDs_def map_insert_def to_uint_def regime_calls_def
      lookup0_def map_index_def ghost_condition_def decay_def)

lemma regime_calls_in_trace:
  assumes "r \<in> set (children (child cc ''Dynamics'') ''Regime'')"
    and "c \<in> set (regime_calls (buildRegimeIDs (child cc ''Dynamics''))
                      (1 < length (buildRegimeIDs (child cc ''Dynamics''))) r)"
  shows "\<exists>calls. trace_of cc = Inr (1 < length (buildRegimeIDs (child cc ''Dynamics'')), calls) \<and> c \<in> set calls"
  using assms by (auto simp: trace_of_calls)

text \<open>
  Claim C1, amended. With callbacks that do not throw the traversal returns normally,
  and every OnCondition, OnEvent or OnImpulse whose target_regime names no Regime is
  handed to its handler with the current regime's ID and targetRegimeID 0.
\<close>

theorem unknown_target_resolves_to_zero:
  assumes "r \<in> set (children (child cc ''Dynamics'') ''Regime'')"
    and "t \<in> set (children r ''OnCondition'') \<and> k = Condition
       \<or> t \<in> set (children r ''OnEvent'') \<and> k = Event
       \<or> t \<in> set (children r ''OnImpulse'') \<and> k = Impulse"
    and "attribute_value t ''target_regime'' \<notin> set (regime_names (child cc ''Dynamics''))"
  shows "\<exists>multipleRegimes calls. trace_of cc = Inr (multipleRegimes, calls)
           \<and> OnObject k t (lookup0 (buildRegimeIDs (child cc ''Dynamics'')) (attribute_value r ''name'')) 0
                \<in> set calls"
proof -
  let ?T = "buildRegimeIDs (child cc ''Dynamics'')"
  have zero: "lookup0 ?T (attribute_value t ''target_regime'') = 0"
    using assms(3) by (rule lookup0_unknown)
  have "OnObject k t (lookup0 ?T (attribute_value r ''name'')) 0 \<in> set (regime_calls ?T (1 < length ?T) r)"
    using assms(2) zero by (auto simp: regime_calls_def Let_def image_iff)
  with assms(1) show ?thesis using regime_calls_in_trace by blast
qed

theorem unknown_target_resolves_to_zero_witness:
  "\<exists>multipleRegimes calls. trace_of ghost_component = Inr (multipleRegimes, calls)
     \<and> OnObject Condition ghost_condition 0 0 \<in> set calls"
proof -
  let ?r = "Element ''Regime'' [(''name'', ''A'')] [ghost_condition]"
  have r: "?r \<in> set (children (child ghost_component ''Dynamics'') ''Regime'')"
    by (simp add: ghost_component_def child_def children_def is_element_def)
  have t: "ghost_condition \<in> set (children ?r ''OnCondition'') \<and> Condition = Condition
       \<or> ghost_condition \<in> set (children ?r ''OnEvent'') \<and> Condition = Event
       \<or> ghost_condition \<in> set (children ?r ''OnImpulse'') \<and> Condition = Impulse"
    by (simp add: children_def is_element_def ghost_condition_def)
  have g: "attribute_value ghost_condition ''target_regime'' \<notin> set (regime_names (child ghost_component ''Dynamics''))"
    by (simp add: ghost_component_def child_def children_def is_element_def regime_names_def
        attribute_value_def ghost_condition_def)
  have "lookup0 (buildRegimeIDs (child ghost_component ''Dynamics'')) (attribute_value ?r ''name'') = 0"
    by (simp add: ghost_component_def child_def children_def is_element_def regime_names_def
        attribute_value_def buildRegimeIDs_def map_insert_def to_uint_def lookup0_def map_index_def)
  then show ?thesis using unknown_target_resolves_to_zero [OF r t g] by simp
qed

text \<open>
  Claim C2, amended. The derivative handler is invoked once for every TimeDerivative
  node, in document order, with the ID of the regime that holds it as currentRegimeID
  and the constant 0 as targetRegimeID.
\<close>

theorem derivative_calls_pass_zero:
  "\<exists>calls. trace_of cc = Inr (1 < length (buildRegimeIDs (child cc ''Dynamics'')), calls)
     \<and> filter is_derivative_call calls =
        concat (map (\<lambda>regime.
                  map (\<lambda>timeDerivative. OnObject TimeDerivative timeDerivative
                         (lookup0 (buildRegimeIDs (child cc ''Dynamics'')) (attribute_value regime ''name'')) 0)
                      (children regime ''TimeDerivative''))
               (children (child cc ''Dynamics'') ''Regime''))"
proof -
  have one: "filter is_derivative_call (regime_calls T multi r) =
      map (\<lambda>t. OnObject TimeDerivative t (lookup0 T (attribute_value r ''name'')) 0) (children r ''TimeDerivative'')"
    for T multi r
    by (simp add: regime_calls_def Let_def filter_map comp_def)
  have "filter is_derivative_call (concat (map (regime_calls T multi) rs)) =
      concat (map (\<lambda>r. map (\<lambda>t. OnObject TimeDerivative t (lookup0 T (attribute_value r ''name'')) 0)
         (children r ''TimeDerivative'')) rs)" for T multi rs
    by (induction rs) (simp_all add: one)
  then show ?thesis by (simp add: trace_of_calls)
qed


section \<open>Token substitution: \<^verbatim>\<open>wrapAndReplaceVariableNames\<close>\<close>

text \<open>
  \<^verbatim>\<open>std::regex_replace\<close> with the expression
  \<^verbatim>\<open>(^|[^a-zA-Z_])NAME($|[^a-zA-Z_])\<close> and the format \<^verbatim>\<open>$1$(REPL)$2\<close>.
  The search runs left to right over non-overlapping matches; \<^verbatim>\<open>^\<close> matches at
  the first character of the text only, \<^verbatim>\<open>$\<close> at its end only, and each match
  consumes the boundary characters it captured. In the format, \<^verbatim>\<open>$(\<close> is not an
  escape and is copied. The variable name is spliced into the expression and the
  format as it is: the model reads it as literal text, which it is for names made
  of letters, digits and underscores.
\<close>

definition name_char :: "char \<Rightarrow> bool" where
  "name_char c = ((CHR ''a'' \<le> c \<and> c \<le> CHR ''z'') \<or> (CHR ''A'' \<le> c \<and> c \<le> CHR ''Z'') \<or> c = CHR ''_'')"

text \<open>The literal \<^verbatim>\<open>NAME\<close> at the front of the text: what follows it.\<close>

fun strip_prefix :: "string \<Rightarrow> string \<Rightarrow> string option" where
  "strip_prefix [] s = Some s"
| "strip_prefix (p # ps) [] = None"
| "strip_prefix (p # ps) (c # cs) = (if p = c then strip_prefix ps cs else None)"

text \<open>The group \<^verbatim>\<open>($|[^a-zA-Z_])\<close>: what it captured and what follows.\<close>

fun boundary_after :: "string \<Rightarrow> (string \<times> string) option" where
  "boundary_after [] = Some ([], [])"
| "boundary_after (c # cs) = (if name_char c then None else Some ([c], cs))"

definition name_then_boundary :: "string \<Rightarrow> string \<Rightarrow> (string \<times> string) option" where
  "name_then_boundary variableName s =
     (case strip_prefix variableName s of None \<Rightarrow> None | Some r \<Rightarrow> boundary_after r)"

text \<open>
  One attempt at a position: the first alternative of group 1 (\<^verbatim>\<open>^\<close>) is tried
  first, then the character class. The result is group 1, group 2 and the text after
  the match.
\<close>

definition match_here :: "bool \<Rightarrow> string \<Rightarrow> string \<Rightarrow> (string \<times> string \<times> string) option" where
  "match_here at_begin variableName s =
     (case (if at_begin then name_then_boundary variableName s else None) of
        Some (g2, rest) \<Rightarrow> Some ([], g2, rest)
      | None \<Rightarrow>
         (case s of
            [] \<Rightarrow> None
          | c # cs \<Rightarrow>
              if name_char c then None
              else (case name_then_boundary variableName cs of
                      None \<Rightarrow> None
                    | Some (g2, rest) \<Rightarrow> Some ([c], g2, rest))))"

lemma strip_prefix_Some: "strip_prefix p s = Some r \<Longrightarrow> s = p @ r"
  by (induction p s rule: strip_prefix.induct) (auto split: if_splits)

lemma strip_prefix_append [simp]: "strip_prefix p (p @ r) = Some r"
  by (induction p) auto

lemma boundary_after_Some: "boundary_after s = Some (g2, r) \<Longrightarrow> s = g2 @ r"
  by (cases s) (auto split: if_splits)

lemma name_then_boundary_Some: "name_then_boundary n s = Some (g2, r) \<Longrightarrow> s = n @ g2 @ r"
  by (auto simp: name_then_boundary_def split: option.splits dest: strip_prefix_Some boundary_after_Some)

lemma match_here_Some: "match_here b n s = Some (g1, g2, r) \<Longrightarrow> s = g1 @ n @ g2 @ r"
  by (auto simp: match_here_def split: option.splits if_splits list.splits dest: name_then_boundary_Some)

lemma match_here_consumes:
  "match_here False n s = Some (g1, g2, r) \<Longrightarrow> length r < length s"
  by (auto simp: match_here_def split: option.splits if_splits list.splits dest!: name_then_boundary_Some)

function replace_from :: "bool \<Rightarrow> string \<Rightarrow> string \<Rightarrow> string \<Rightarrow> string" where
  "replace_from at_begin variableName replaceVariableName s =
     (case match_here at_begin variableName s of
        Some (g1, g2, rest) \<Rightarrow>
          g1 @ ''$('' @ replaceVariableName @ '')'' @ g2
             @ replace_from False variableName replaceVariableName rest
      | None \<Rightarrow>
          (case s of
             [] \<Rightarrow> []
           | c # cs \<Rightarrow> c # replace_from False variableName replaceVariableName cs))"
  by pat_completeness auto
termination
proof (relation "measure (\<lambda>(b, n, r, s). 2 * length s + (if b then 1 else 0))")
  show "wf (measure (\<lambda>(b, n, r, s). 2 * length s + (if b then 1 else 0)))" by simp
next
  fix at_begin :: bool and variableName replaceVariableName s :: string and x2 g1 y g2 rest
  assume "match_here at_begin variableName s = Some x2" "(g1, y) = x2" "(g2, rest) = y"
  then have m: "match_here at_begin variableName s = Some (g1, g2, rest)" by simp
  show "((False, variableName, replaceVariableName, rest), at_begin, variableName, replaceVariableName, s)
        \<in> measure (\<lambda>(b, n, r, s). 2 * length s + (if b then 1 else 0))"
  proof (cases at_begin)
    case True
    from match_here_Some [OF m] have "length rest \<le> length s" by simp
    then show ?thesis using True by simp
  next
    case False
    with m have "length rest < length s" by (simp add: match_here_consumes)
    then show ?thesis by simp
  qed
next
  fix at_begin :: bool and variableName replaceVariableName s :: string and c cs
  assume "match_here at_begin variableName s = None" "s = c # cs"
  then show "((False, variableName, replaceVariableName, cs), at_begin, variableName, replaceVariableName, s)
        \<in> measure (\<lambda>(b, n, r, s). 2 * length s + (if b then 1 else 0))"
    by simp
qed

definition wrapAndReplaceVariableNames :: "string \<Rightarrow> string \<Rightarrow> string \<Rightarrow> string" where
  "wrapAndReplaceVariableNames code variableName replaceVariableName =
     replace_from True variableName replaceVariableName code"

definition wrapVariableNames :: "string \<Rightarrow> string \<Rightarrow> string" where
  "wrapVariableNames code variableName = wrapAndReplaceVariableNames code variableName variableName"


declare replace_from.simps [simp del]

subsection \<open>Substitution: properties\<close>

text \<open>Whether the scan finds a match at some position of the text.\<close>

fun has_match :: "bool \<Rightarrow> string \<Rightarrow> string \<Rightarrow> bool" where
  "has_match at_begin variableName [] = (match_here at_begin variableName [] \<noteq> None)"
| "has_match at_begin variableName (c # cs) =
     (match_here at_begin variableName (c # cs) \<noteq> None \<or> has_match False variableName cs)"

lemma has_match_here: "match_here b n s \<noteq> None \<Longrightarrow> has_match b n s"
  by (cases s) auto

lemma match_here_begin:
  assumes "match_here False n s \<noteq> None"
  shows "match_here True n s \<noteq> None"
proof (cases "name_then_boundary n s")
  case None
  then have "match_here True n s = match_here False n s" by (simp add: match_here_def)
  with assms show ?thesis by simp
next
  case (Some p)
  then show ?thesis by (simp add: match_here_def split: prod.splits)
qed

lemma has_match_begin: "has_match False n s \<Longrightarrow> has_match True n s"
  using match_here_begin [of n s] by (cases s) auto

lemma has_match_prefix: "has_match False n s \<Longrightarrow> has_match b n (pre @ s)"
proof (induction pre arbitrary: b)
  case Nil
  then show ?case by (cases b) (auto dest: has_match_begin)
next
  case (Cons a pre)
  then show ?case by simp
qed

lemma replace_no_match: "\<not> has_match b n s \<Longrightarrow> replace_from b n r s = s"
proof (induction b n r s rule: replace_from.induct)
  case (1 b n r s)
  show ?case
  proof (cases s)
    case Nil
    with "1.prems" have "match_here b n s = None" by (cases "match_here b n s") auto
    with Nil show ?thesis by (simp add: replace_from.simps)
  next
    case (Cons c cs)
    with "1.prems" have none: "match_here b n s = None" and rest: "\<not> has_match False n cs"
      by (cases "match_here b n s"; simp)+
    from "1.IH"(1) [OF none Cons rest] show ?thesis using none Cons by (simp add: replace_from.simps)
  qed
qed

lemma replace_length_ge_aux: "r = n \<Longrightarrow> length s \<le> length (replace_from b n r s)"
proof (induction b n r s rule: replace_from.induct)
  case (1 b n r s)
  note r = \<open>r = n\<close>
  show ?case
  proof (cases "match_here b n s")
    case None
    show ?thesis
    proof (cases s)
      case Nil
      then show ?thesis by simp
    next
      case (Cons c cs)
      from "1.IH"(1) [OF None Cons r] show ?thesis using None Cons by (simp add: replace_from.simps)
    qed
  next
    case (Some m)
    obtain g1 g2 rest where m: "m = (g1, g2, rest)" by (cases m)
    have s: "s = g1 @ n @ g2 @ rest" using Some m by (simp add: match_here_Some)
    from "1.IH"(2) [OF Some m [symmetric] refl r] have "length rest \<le> length (replace_from False n r rest)" .
    then show ?thesis using Some m s r by (simp add: replace_from.simps)
  qed
qed

lemma replace_length_ge: "length s \<le> length (replace_from b n n s)"
  by (rule replace_length_ge_aux) simp

lemma replace_length_gt_aux: "r = n \<Longrightarrow> has_match b n s \<Longrightarrow> length s < length (replace_from b n r s)"
proof (induction b n r s rule: replace_from.induct)
  case (1 b n r s)
  note r = \<open>r = n\<close> and hm = \<open>has_match b n s\<close>
  show ?case
  proof (cases "match_here b n s")
    case None
    show ?thesis
    proof (cases s)
      case Nil
      with None hm show ?thesis by simp
    next
      case (Cons c cs)
      with None hm have "has_match False n cs" by simp
      from "1.IH"(1) [OF None Cons r this] show ?thesis using None Cons by (simp add: replace_from.simps)
    qed
  next
    case (Some m)
    obtain g1 g2 rest where m: "m = (g1, g2, rest)" by (cases m)
    have s: "length s = length g1 + length n + length g2 + length rest"
      using match_here_Some [of b n s g1 g2 rest] Some m by simp
    have "length rest \<le> length (replace_from False n n rest)" by (rule replace_length_ge)
    then show ?thesis using Some m s r by (simp add: replace_from.simps)
  qed
qed

lemma replace_length_gt: "has_match b n s \<Longrightarrow> length s < length (replace_from b n n s)"
  by (rule replace_length_gt_aux) simp_all

lemma wrapped_matches: "match_here False n (''('' @ n @ '')'' @ t) \<noteq> None"
  by (simp add: match_here_def name_then_boundary_def name_char_def)

lemma replace_keeps_match_aux: "r = n \<Longrightarrow> has_match b n s \<Longrightarrow> has_match False n (replace_from b n r s)"
proof (induction b n r s rule: replace_from.induct)
  case (1 b n r s)
  note r = \<open>r = n\<close> and hm = \<open>has_match b n s\<close>
  show ?case
  proof (cases "match_here b n s")
    case None
    show ?thesis
    proof (cases s)
      case Nil
      with None hm show ?thesis by simp
    next
      case (Cons c cs)
      with None hm have "has_match False n cs" by simp
      from "1.IH"(1) [OF None Cons r this] show ?thesis using None Cons by (simp add: replace_from.simps)
    qed
  next
    case (Some m)
    obtain g1 g2 rest where m: "m = (g1, g2, rest)" by (cases m)
    let ?t = "g2 @ replace_from False n n rest"
    have "has_match False n (''('' @ n @ '')'' @ ?t)"
      by (rule has_match_here) (rule wrapped_matches)
    then have "has_match False n ((g1 @ ''$'') @ (''('' @ n @ '')'' @ ?t))"
      by (rule has_match_prefix)
    then show ?thesis using Some m r by (simp add: replace_from.simps)
  qed
qed

lemma replace_keeps_match: "has_match b n s \<Longrightarrow> has_match False n (replace_from b n n s)"
  by (rule replace_keeps_match_aux) simp_all

text \<open>
  Claim C3, as stated, fails: the parentheses of \<^verbatim>\<open>$(V)\<close> are boundary characters
  themselves, so a second application wraps the wrapped name again.
\<close>

theorem wrap_twice_counterexample:
  "wrapVariableNames ''V'' ''V'' = ''$(V)''
   \<and> wrapVariableNames (wrapVariableNames ''V'' ''V'') ''V'' = ''$($(V))''"
  by (simp add: wrapVariableNames_def wrapAndReplaceVariableNames_def replace_from.simps match_here_def
      name_then_boundary_def name_char_def)

text \<open>
  Claim C3, amended. Applying the wrap for a name twice gives the same text as
  applying it once exactly when the first application changes nothing, that is when
  the text has no match; otherwise the second application wraps again.
\<close>

theorem wrap_twice_same_iff_unchanged:
  "wrapVariableNames (wrapVariableNames code variableName) variableName = wrapVariableNames code variableName
     \<longleftrightarrow> wrapVariableNames code variableName = code"
proof
  assume "wrapVariableNames code variableName = code"
  then show "wrapVariableNames (wrapVariableNames code variableName) variableName = wrapVariableNames code variableName"
    by simp
next
  assume same: "wrapVariableNames (wrapVariableNames code variableName) variableName = wrapVariableNames code variableName"
  show "wrapVariableNames code variableName = code"
  proof (rule ccontr)
    assume "wrapVariableNames code variableName \<noteq> code"
    then have "has_match True variableName code"
      using replace_no_match [of True variableName code variableName]
      by (auto simp: wrapVariableNames_def wrapAndReplaceVariableNames_def)
    then have "has_match False variableName (replace_from True variableName variableName code)"
      by (rule replace_keeps_match)
    then have "has_match True variableName (replace_from True variableName variableName code)"
      by (rule has_match_begin)
    then have "length (replace_from True variableName variableName code)
        < length (replace_from True variableName variableName (replace_from True variableName variableName code))"
      by (rule replace_length_gt)
    then show False using same by (simp add: wrapVariableNames_def wrapAndReplaceVariableNames_def)
  qed
qed

text \<open>
  Claim C6. The example of the specification holds, but not every standalone
  occurrence is rewritten: a match consumes the boundary character after the name,
  so an occurrence that starts right after it is passed over.
\<close>

theorem wrap_misses_adjacent_occurrence:
  "wrapVariableNames ''Vx + xV + V'' ''V'' = ''Vx + xV + $(V)''
   \<and> wrapVariableNames ''V+V'' ''V'' = ''$(V)+V''"
  by (simp add: wrapVariableNames_def wrapAndReplaceVariableNames_def replace_from.simps match_here_def
      name_then_boundary_def name_char_def)


section \<open>The code assembler: \<^verbatim>\<open>CodeStream::onRegimeEnd\<close>\<close>

text \<open>
  What is inserted into a stream is kept as the sequence of insertions: text,
  unsigned numbers and the manipulators \<^verbatim>\<open>OB(n)\<close>, \<^verbatim>\<open>CB(n)\<close> and \<^verbatim>\<open>ENDL\<close>, whose
  rendering belongs to the code helper. The stream of the current regime is a string
  stream; \<^verbatim>\<open>tellp() > 0\<close> holds when something was written to it.
\<close>

datatype token = Text string | UInt nat | OB nat | CB nat | ENDL

record code_stream =
  m_CodeStream :: "token list"
  m_CurrentRegimeStream :: string
  m_FirstNonEmptyRegime :: bool

definition put :: "token list \<Rightarrow> code_stream \<Rightarrow> code_stream" where
  "put ts cs = cs\<lparr>m_CodeStream := m_CodeStream cs @ ts\<rparr>"

definition onRegimeEnd :: "bool \<Rightarrow> nat \<Rightarrow> code_stream \<Rightarrow> code_stream" where
  "onRegimeEnd multipleRegimes currentRegimeID cs =
     (if m_CurrentRegimeStream cs \<noteq> [] then
        let cs1 = (if multipleRegimes then
                     let cs0 = (if m_FirstNonEmptyRegime cs then cs\<lparr>m_FirstNonEmptyRegime := False\<rparr>
                                else put [Text ''else ''] cs)
                     in put [Text ''if(_regimeID == '', UInt currentRegimeID, Text '')'', OB 1] cs0
                   else cs);
            cs2 = put [Text (m_CurrentRegimeStream cs1)] cs1;
            cs3 = cs2\<lparr>m_CurrentRegimeStream := []\<rparr>
        in (if multipleRegimes then put [CB 1] cs3 else cs3)
      else cs)"

text \<open>A fresh assembler, and a handler's write into the current regime's stream.\<close>

definition new_code_stream :: code_stream where
  "new_code_stream = \<lparr>m_CodeStream = [], m_CurrentRegimeStream = [], m_FirstNonEmptyRegime = True\<rparr>"

definition write_regime :: "string \<Rightarrow> code_stream \<Rightarrow> code_stream" where
  "write_regime body cs = cs\<lparr>m_CurrentRegimeStream := m_CurrentRegimeStream cs @ body\<rparr>"

text \<open>
  A run of the assembler: for each regime in turn the handlers write the regime's
  text, then the regime ends.
\<close>

definition assemble :: "bool \<Rightarrow> (nat \<times> string) list \<Rightarrow> code_stream \<Rightarrow> code_stream" where
  "assemble multipleRegimes regs cs =
     foldl (\<lambda>cs (currentRegimeID, body). onRegimeEnd multipleRegimes currentRegimeID (write_regime body cs)) cs regs"

text \<open>
  The output the specification describes, for the regimes that wrote code: with
  guards (\<open>if\<close> for the first, \<open>else if\<close> for the others) and without.
\<close>

fun guarded :: "bool \<Rightarrow> (nat \<times> string) list \<Rightarrow> token list" where
  "guarded first [] = []"
| "guarded first ((regimeID, body) # rest) =
     (if first then [] else [Text ''else ''])
     @ [Text ''if(_regimeID == '', UInt regimeID, Text '')'', OB 1, Text body, CB 1]
     @ guarded False rest"

definition unguarded :: "(nat \<times> string) list \<Rightarrow> token list" where
  "unguarded regs = map (\<lambda>(regimeID, body). Text body) regs"

definition wrote_code :: "nat \<times> string \<Rightarrow> bool" where
  "wrote_code reg = (snd reg \<noteq> [])"

lemma assemble_Nil [simp]: "assemble multi [] cs = cs" by (simp add: assemble_def)
lemma assemble_Cons [simp]:
  "assemble multi ((i, body) # regs) cs = assemble multi regs (onRegimeEnd multi i (write_regime body cs))"
  by (simp add: assemble_def)

lemma wrote_code_simp [simp]: "wrote_code (i, body) = (body \<noteq> [])"
  by (simp add: wrote_code_def)

lemma assemble_multi:
  "assemble True regs \<lparr>m_CodeStream = out, m_CurrentRegimeStream = [], m_FirstNonEmptyRegime = first\<rparr> =
     \<lparr>m_CodeStream = out @ guarded first (filter wrote_code regs), m_CurrentRegimeStream = [],
      m_FirstNonEmptyRegime = (first \<and> filter wrote_code regs = [])\<rparr>"
proof (induction regs arbitrary: out first)
  case Nil
  then show ?case by simp
next
  case (Cons reg regs)
  obtain i body where reg: "reg = (i, body)" by (cases reg)
  show ?case
    unfolding reg assemble_Cons
    by (cases "body = []") (simp_all add: onRegimeEnd_def write_regime_def put_def Let_def Cons.IH)
qed

lemma assemble_single:
  "assemble False regs \<lparr>m_CodeStream = out, m_CurrentRegimeStream = [], m_FirstNonEmptyRegime = first\<rparr> =
     \<lparr>m_CodeStream = out @ unguarded (filter wrote_code regs), m_CurrentRegimeStream = [],
      m_FirstNonEmptyRegime = first\<rparr>"
proof (induction regs arbitrary: out first)
  case Nil
  then show ?case by (simp add: unguarded_def)
next
  case (Cons reg regs)
  obtain i body where reg: "reg = (i, body)" by (cases reg)
  show ?case
    unfolding reg assemble_Cons
    by (cases "body = []") (simp_all add: onRegimeEnd_def write_regime_def put_def Let_def Cons.IH unguarded_def)
qed

subsection \<open>The assembler driven by the traversal\<close>

text \<open>
  Handlers that append text to the stream of the current regime, and the regime-end
  function that calls \<^verbatim>\<open>onRegimeEnd\<close>. What a handler writes may depend on the node
  and on the two regime IDs.
\<close>

type_synonym emitter = "xml_node \<Rightarrow> nat \<Rightarrow> nat \<Rightarrow> string"

definition write_handler :: "emitter \<Rightarrow> (code_stream, unit) object_handler" where
  "write_handler emit node currentRegimeID targetRegimeID cs =
     Inr (write_regime (emit node currentRegimeID targetRegimeID) cs)"

definition regime_end_handler :: "(code_stream, unit) regime_end" where
  "regime_end_handler multipleRegimes currentRegimeID cs = Inr (onRegimeEnd multipleRegimes currentRegimeID cs)"

definition generate_to_stream :: "emitter \<Rightarrow> emitter \<Rightarrow> emitter \<Rightarrow> emitter \<Rightarrow> xml_node \<Rightarrow> unit + (bool \<times> code_stream)" where
  "generate_to_stream emitEvent emitCondition emitImpulse emitTimeDerivative componentClass =
     generateModelCode componentClass (write_handler emitEvent) (write_handler emitCondition)
       (write_handler emitImpulse) (write_handler emitTimeDerivative) regime_end_handler new_code_stream"

definition regime_text :: "emitter \<Rightarrow> emitter \<Rightarrow> emitter \<Rightarrow> emitter \<Rightarrow> regime_ids \<Rightarrow> xml_node \<Rightarrow> nat \<times> string" where
  "regime_text emitEvent emitCondition emitImpulse emitTimeDerivative T r =
     (let cur = lookup0 T (attribute_value r ''name'') in
      (cur,
       concat (map (\<lambda>t. emitCondition t cur (lookup0 T (attribute_value t ''target_regime''))) (children r ''OnCondition''))
     @ concat (map (\<lambda>t. emitEvent t cur (lookup0 T (attribute_value t ''target_regime''))) (children r ''OnEvent''))
     @ concat (map (\<lambda>t. emitImpulse t cur (lookup0 T (attribute_value t ''target_regime''))) (children r ''OnImpulse''))
     @ concat (map (\<lambda>t. emitTimeDerivative t cur 0) (children r ''TimeDerivative''))))"

definition emit_text :: "string \<Rightarrow> emitter" where
  "emit_text s node currentRegimeID targetRegimeID = s"

lemma write_regime_twice: "write_regime b (write_regime a cs) = write_regime (a @ b) cs"
  by (simp add: write_regime_def)

lemma write_regime_Nil: "write_regime [] cs = cs"
  by (simp add: write_regime_def)

lemma seq_write_handler:
  "seq (map (\<lambda>t. write_handler emit t cur (f t)) ts) cs =
     Inr (write_regime (concat (map (\<lambda>t. emit t cur (f t)) ts)) cs)"
proof (induction ts arbitrary: cs)
  case Nil
  then show ?case by (simp add: write_regime_Nil)
next
  case (Cons t ts)
  then show ?case by (simp add: write_handler_def write_regime_twice)
qed

lemma seq_write_regime:
  "seq (regime_steps (write_handler eE) (write_handler eC) (write_handler eI) (write_handler eT)
          regime_end_handler T multi r) cs
   = Inr (onRegimeEnd multi (fst (regime_text eE eC eI eT T r))
            (write_regime (snd (regime_text eE eC eI eT T r)) cs))"
  by (simp add: regime_steps_def regime_text_def Let_def seq_append seq_write_handler
      write_regime_twice regime_end_handler_def)

lemma seq_write_regimes:
  "seq (concat (map (regime_steps (write_handler eE) (write_handler eC) (write_handler eI) (write_handler eT)
          regime_end_handler T multi) rs)) cs
   = Inr (assemble multi (map (regime_text eE eC eI eT T) rs) cs)"
proof (induction rs arbitrary: cs)
  case Nil
  then show ?case by simp
next
  case (Cons r rs)
  obtain i body where rt: "regime_text eE eC eI eT T r = (i, body)" by (cases "regime_text eE eC eI eT T r")
  show ?case using Cons.IH rt by (simp add: seq_append seq_write_regime)
qed

lemma buildRegimeIDs_length: "length (buildRegimeIDs d) = card (set (regime_names d))"
  by (simp add: buildRegimeIDs_ins ins_names_length)

text \<open>
  Driven by the traversal from a fresh assembler, the output holds, for every regime
  that wrote code and for no other, that regime's text; the text stands in a guard on
  \<open>_regimeID\<close> (\<open>if\<close> for the first such regime, \<open>else if\<close> for the later ones)
  exactly when the regime table has more than one name, and without any guard
  otherwise.
\<close>

lemma assembler_guards:
  "\<exists>cs. generate_to_stream emitEvent emitCondition emitImpulse emitTimeDerivative componentClass =
          Inr (1 < card (set (regime_names (child componentClass ''Dynamics''))), cs)
     \<and> m_CurrentRegimeStream cs = []
     \<and> m_CodeStream cs =
         (if 1 < card (set (regime_names (child componentClass ''Dynamics'')))
          then guarded True
                 (filter wrote_code
                    (map (regime_text emitEvent emitCondition emitImpulse emitTimeDerivative
                            (buildRegimeIDs (child componentClass ''Dynamics'')))
                         (children (child componentClass ''Dynamics'') ''Regime'')))
          else unguarded
                 (filter wrote_code
                    (map (regime_text emitEvent emitCondition emitImpulse emitTimeDerivative
                            (buildRegimeIDs (child componentClass ''Dynamics'')))
                         (children (child componentClass ''Dynamics'') ''Regime''))))"
  by (simp add: generate_to_stream_def generateModelCode_seq seq_write_regimes new_code_stream_def
      assemble_multi assemble_single buildRegimeIDs_length)

definition leaky :: xml_node where
  "leaky = Element ''ComponentClass'' [(''name'', ''N''), (''type'', ''neuron_body'')]
     [Element ''Dynamics'' [] [Element ''Regime'' [(''name'', ''A'')] [decay]]]"

lemma assembler_guards_example:
  "(\<exists>cs. generate_to_stream (emit_text []) (emit_text ''x;'') (emit_text []) (emit_text []) ghost_component
            = Inr (True, cs)
        \<and> m_CodeStream cs = [Text ''if(_regimeID == '', UInt 0, Text '')'', OB 1, Text ''x;'', CB 1])
   \<and> (\<exists>cs. generate_to_stream (emit_text []) (emit_text []) (emit_text []) (emit_text ''V += DT * (-V);'') leaky
            = Inr (False, cs)
        \<and> m_CodeStream cs = [Text ''V += DT * (-V);''])"
proof
  have "\<exists>cs. generate_to_stream (emit_text []) (emit_text ''x;'') (emit_text []) (emit_text []) ghost_component
            = Inr (True, cs)
        \<and> m_CurrentRegimeStream cs = []
        \<and> m_CodeStream cs = [Text ''if(_regimeID == '', UInt 0, Text '')'', OB 1, Text ''x;'', CB 1]"
    using assembler_guards [of "emit_text []" "emit_text ''x;''" "emit_text []" "emit_text []" ghost_component]
    by (simp add: ghost_component_def ghost_condition_def eval_xml buildRegimeIDs_def
      map_insert_def to_uint_def regime_text_def lookup0_def map_index_def emit_text_def card_insert_if)
  then show "\<exists>cs. generate_to_stream (emit_text []) (emit_text ''x;'') (emit_text []) (emit_text []) ghost_component
            = Inr (True, cs)
        \<and> m_CodeStream cs = [Text ''if(_regimeID == '', UInt 0, Text '')'', OB 1, Text ''x;'', CB 1]"
    by blast
next
  have "\<exists>cs. generate_to_stream (emit_text []) (emit_text []) (emit_text []) (emit_text ''V += DT * (-V);'') leaky
            = Inr (False, cs)
        \<and> m_CurrentRegimeStream cs = []
        \<and> m_CodeStream cs = [Text ''V += DT * (-V);'']"
    using assembler_guards [of "emit_text []" "emit_text []" "emit_text []" "emit_text ''V += DT * (-V);''" leaky]
    by (simp add: leaky_def decay_def eval_xml buildRegimeIDs_def unguarded_def
      map_insert_def to_uint_def regime_text_def lookup0_def map_index_def emit_text_def)
  then show "\<exists>cs. generate_to_stream (emit_text []) (emit_text []) (emit_text []) (emit_text ''V += DT * (-V);'') leaky
            = Inr (False, cs)
        \<and> m_CodeStream cs = [Text ''V += DT * (-V);'']"
    by blast
qed


section \<open>Value resolvers: \<^verbatim>\<open>getValues\<close>\<close>

text \<open>
  The sparse values are a \<^verbatim>\<open>std::map<std::string, double>\<close>, kept as the list of its
  entries (distinct keys); iterating it visits the entries in key order. The values
  are only copied, so any type with a zero stands for \<^verbatim>\<open>double\<close>. The resolvers of
  the common module read the model's names; the one of the neuron model file reads the
  map alone.
\<close>

definition ParamValues_getValues :: "string list \<Rightarrow> (string \<times> 'v::zero) list \<Rightarrow> 'v list" where
  "ParamValues_getValues modelParamNames m_Values =
     map (\<lambda>n. case map_of m_Values n of None \<Rightarrow> 0 | Some v \<Rightarrow> v) modelParamNames"

definition VarValues_getValues :: "(string \<times> string) list \<Rightarrow> (string \<times> 'v::zero) list \<Rightarrow> 'v list" where
  "VarValues_getValues modelVars m_Values =
     map (\<lambda>n. case map_of m_Values (fst n) of None \<Rightarrow> 0 | Some v \<Rightarrow> v) modelVars"

definition NeuronModel_ParamValues_getValues :: "(string \<times> 'v) list \<Rightarrow> 'v list" where
  "NeuronModel_ParamValues_getValues m_Values = map snd (sort_key fst m_Values)"

lemma getValues_resolves:
  "length (ParamValues_getValues names vals) = length names
   \<and> (\<forall>i<length names. ParamValues_getValues names vals ! i =
         (case map_of vals (names ! i) of None \<Rightarrow> 0 | Some v \<Rightarrow> v))
   \<and> ParamValues_getValues names (filter (\<lambda>kv. fst kv \<in> set names) vals) = ParamValues_getValues names vals"
proof -
  have "map_of (filter (\<lambda>kv. fst kv \<in> set names) vals) n = map_of vals n" if "n \<in> set names" for n
    using that by (induction vals) auto
  then show ?thesis by (simp add: ParamValues_getValues_def)
qed

lemma VarValues_getValues_names:
  "VarValues_getValues vars vals = ParamValues_getValues (map fst vars) vals"
  by (simp add: VarValues_getValues_def ParamValues_getValues_def comp_def)

text \<open>
  Claim C5. \<^verbatim>\<open>SpineMLNeuronModel::ParamValues::getValues\<close> returns the values of the
  sparse map in key order, whatever names the model declares: for the declared order
  a, b, c and the map b = 2.5 it returns one value, where the resolver of the common
  module returns 0, 2.5, 0.
\<close>

theorem neuron_getValues_ignores_declared_names:
  "NeuronModel_ParamValues_getValues [(''b'', 2.5::real)] = [2.5]
   \<and> ParamValues_getValues [''a'', ''b'', ''c''] [(''b'', 2.5::real)] = [0, 2.5, 0]"
  by (simp add: NeuronModel_ParamValues_getValues_def ParamValues_getValues_def)


section \<open>Classification of parameters: \<^verbatim>\<open>findModelVariables\<close>\<close>

text \<open>
  A \<^verbatim>\<open>std::set<std::string>\<close> is kept as the list of its elements in iteration order
  (ascending, without duplicates); the caller's set is given by its elements.
\<close>

definition std_set :: "string list \<Rightarrow> string list" where
  "std_set xs = sort (remdups xs)"

definition state_variable_names :: "xml_node \<Rightarrow> string list" where
  "state_variable_names componentClass =
     map (\<lambda>n. attribute_value n ''name'') (children (child componentClass ''Dynamics'') ''StateVariable'')"

definition parameter_names :: "xml_node \<Rightarrow> string list" where
  "parameter_names componentClass =
     map (\<lambda>n. attribute_value n ''name'') (children componentClass ''Parameter'')"

definition findModelVariables ::
  "xml_node \<Rightarrow> string list \<Rightarrow> bool \<Rightarrow> string list \<times> (string \<times> string) list" where
  "findModelVariables componentClass variableParams multipleRegimes =
     (let gennVariables = std_set (variableParams @ state_variable_names componentClass);
          paramNames = filter (\<lambda>paramName. paramName \<notin> set gennVariables) (parameter_names componentClass);
          vars = map (\<lambda>vname. (vname, ''scalar'')) gennVariables;
          vars = (if multipleRegimes then vars @ [(''_regimeID'', ''unsigned int'')] else vars)
      in (paramNames, vars))"

definition reserved_component :: xml_node where
  "reserved_component = Element ''ComponentClass'' [(''name'', ''N''), (''type'', ''neuron_body'')]
     [Element ''Parameter'' [(''name'', ''_regimeID'')] [],
      Element ''Dynamics'' []
        [Element ''Regime'' [(''name'', ''A'')] [],
         Element ''Regime'' [(''name'', ''B'')] []]]"

definition izhikevich :: xml_node where
  "izhikevich = Element ''ComponentClass'' [(''name'', ''Izh''), (''type'', ''neuron_body'')]
     [Element ''Parameter'' [(''name'', ''a'')] [],
      Element ''Parameter'' [(''name'', ''b'')] [],
      Element ''Parameter'' [(''name'', ''V'')] [],
      Element ''Dynamics'' []
        [Element ''StateVariable'' [(''name'', ''V'')] [],
         Element ''Regime'' [(''name'', ''A'')] []]]"

lemma set_std_set [simp]: "set (std_set xs) = set xs"
  by (simp add: std_set_def)

text \<open>
  Claim C8, as stated, fails: in a component with several regimes a Parameter named
  \<open>_regimeID\<close> is a free parameter and also the name of the regime-ID variable.
\<close>

theorem reserved_name_counterexample:
  "parameter_names reserved_component = [''_regimeID'']
   \<and> findModelVariables reserved_component [] True = ([''_regimeID''], [(''_regimeID'', ''unsigned int'')])"
  by (simp add: findModelVariables_def reserved_component_def parameter_names_def state_variable_names_def
      children_def child_def is_element_def attribute_value_def std_set_def)

text \<open>
  Claim C8, amended. A declared Parameter other than \<open>_regimeID\<close> (or any declared
  Parameter of a component without several regimes) is in the free-parameter list
  exactly when it is neither in the caller's set nor a StateVariable name, is in the
  variable list exactly when it is one of the two, and so is in exactly one list.
\<close>

theorem parameter_classified_once:
  assumes "p \<in> set (parameter_names componentClass)"
    and "p \<noteq> ''_regimeID'' \<or> \<not> multipleRegimes"
  shows "(p \<in> set (fst (findModelVariables componentClass variableParams multipleRegimes))
            \<longleftrightarrow> p \<notin> set variableParams \<and> p \<notin> set (state_variable_names componentClass))
       \<and> (p \<in> fst ` set (snd (findModelVariables componentClass variableParams multipleRegimes))
            \<longleftrightarrow> p \<in> set variableParams \<or> p \<in> set (state_variable_names componentClass))
       \<and> (p \<in> set (fst (findModelVariables componentClass variableParams multipleRegimes))
            \<longleftrightarrow> p \<notin> fst ` set (snd (findModelVariables componentClass variableParams multipleRegimes)))"
  using assms by (auto simp: findModelVariables_def Let_def image_iff)

theorem parameter_classified_once_witness:
  "''b'' \<in> set (parameter_names izhikevich)
   \<and> ''b'' \<notin> set (fst (findModelVariables izhikevich [''b''] False))
   \<and> ''b'' \<in> fst ` set (snd (findModelVariables izhikevich [''b''] False))
   \<and> ''a'' \<in> set (fst (findModelVariables izhikevich [''b''] False))"
proof -
  have pb: "''b'' \<in> set (parameter_names izhikevich)" and pa: "''a'' \<in> set (parameter_names izhikevich)"
    by (simp_all add: izhikevich_def parameter_names_def children_def is_element_def attribute_value_def)
  have sv: "state_variable_names izhikevich = [''V'']"
    by (simp add: izhikevich_def state_variable_names_def children_def child_def is_element_def attribute_value_def)
  have rb: "''b'' \<noteq> ''_regimeID'' \<or> \<not> False" and ra: "''a'' \<noteq> ''_regimeID'' \<or> \<not> False" by simp_all
  show ?thesis
    using parameter_classified_once [OF pb rb, of "[''b'']"] parameter_classified_once [OF pa ra, of "[''b'']"] pb sv
    by simp
qed


section \<open>The neuron model constructor: \<^verbatim>\<open>SpineMLNeuronModel\<close>\<close>

text \<open>
  The constructor loads the file itself; the model takes the result of the load
  (\<open>None\<close> when it failed). Every \<^verbatim>\<open>throw std::runtime_error\<close> is a value of
  \<open>error\<close>. The loop state holds what the loops change: the table (through
  \<^verbatim>\<open>operator[]\<close>), the two streams and the flag of the first regime.
\<close>

datatype error =
    CouldNotOpenFile
  | NoSpineMLRoot
  | NotNeuronBody
  | NoTriggerCondition
  | ConditionNotTargetingSelf

record neuron_model =
  m_ParamNames :: "string list"
  m_Vars :: "(string \<times> string) list"
  m_SimCode :: "token list"
  m_ThresholdConditionCode :: "token list"

record build =
  regimeIDs :: regime_ids
  simCode :: "token list"
  thresholdCondition :: "token list"
  firstRegime :: bool

definition sim :: "token list \<Rightarrow> build \<Rightarrow> build" where
  "sim ts b = b\<lparr>simCode := simCode b @ ts\<rparr>"

definition state_assignments :: "xml_node \<Rightarrow> token list" where
  "state_assignments condition =
     concat (map (\<lambda>stateAssign.
                [Text (attribute_value stateAssign ''variable''), Text '' = '',
                 Text (child_value stateAssign ''MathInline''), Text '';'', ENDL])
             (children condition ''StateAssignment''))"

definition emits_spike :: "xml_node \<Rightarrow> bool" where
  \<comment> \<open>\<^verbatim>\<open>condition.select_node("EventOut[@port='spike']")\<close> finds a node\<close>
  "emits_spike condition =
     (filter (\<lambda>n. attribute_value n ''port'' = ''spike'') (children condition ''EventOut'') \<noteq> [])"

definition spike_threshold :: "string \<Rightarrow> xml_node \<Rightarrow> xml_node \<Rightarrow> build \<Rightarrow> build" where
  \<comment> \<open>the end of the loop body: close the trigger block, then the threshold condition;
     \<^verbatim>\<open>thresholdCondition.tellp() > 0\<close> holds once a disjunct was written\<close>
  "spike_threshold regimeName condition triggerCode b =
     (let b1 = sim [CB 2] b
      in if emits_spike condition then
           (case map_index (regimeIDs b1) regimeName of
              (regimeID, ids) \<Rightarrow>
                b1\<lparr>regimeIDs := ids,
                   thresholdCondition :=
                     thresholdCondition b1
                     @ (if thresholdCondition b1 \<noteq> [] then [Text '' || ''] else [])
                     @ [Text ''(_regimeID == '', UInt regimeID, Text '' && ('',
                        Text (text_get triggerCode), Text ''))'']\<rparr>)
         else b1)"

definition onCondition :: "bool \<Rightarrow> string \<Rightarrow> xml_node \<Rightarrow> build \<Rightarrow> error + build" where
  "onCondition multipleRegimes regimeName condition b =
     (let targetRegimeName = attribute_value condition ''target_regime'';
          triggerCode = child (child condition ''Trigger'') ''MathInline''
      in if is_null triggerCode then Inl NoTriggerCondition
         else
           let b1 = sim ([Text ''if('', Text (text_get triggerCode), Text '')'', OB 2]
                         @ state_assignments condition) b
           in if multipleRegimes then
                (case map_index (regimeIDs b1) targetRegimeName of
                   (targetRegimeID, ids) \<Rightarrow>
                     Inr (spike_threshold regimeName condition triggerCode
                           (sim [Text ''_regimeID = '', UInt targetRegimeID, Text '';'', ENDL]
                              (b1\<lparr>regimeIDs := ids\<rparr>))))
              else if targetRegimeName \<noteq> regimeName then Inl ConditionNotTargetingSelf
              else Inr (spike_threshold regimeName condition triggerCode b1))"

fun conditions :: "bool \<Rightarrow> string \<Rightarrow> xml_node list \<Rightarrow> build \<Rightarrow> error + build" where
  "conditions multipleRegimes regimeName [] b = Inr b"
| "conditions multipleRegimes regimeName (condition # cs) b =
     (case onCondition multipleRegimes regimeName condition b of
        Inl e \<Rightarrow> Inl e
      | Inr b' \<Rightarrow> conditions multipleRegimes regimeName cs b')"

definition regime_open :: "bool \<Rightarrow> string \<Rightarrow> build \<Rightarrow> build" where
  \<comment> \<open>the log line reads \<^verbatim>\<open>regimeIDs[regimeName]\<close>, then the guard is written\<close>
  "regime_open multipleRegimes regimeName b0 =
     (let b = b0\<lparr>regimeIDs := snd (map_index (regimeIDs b0) regimeName)\<rparr> in
      if multipleRegimes then
        let b1 = (if firstRegime b then b\<lparr>firstRegime := False\<rparr> else sim [Text ''else ''] b)
        in (case map_index (regimeIDs b1) regimeName of
              (regimeID, ids) \<Rightarrow>
                sim [Text ''if(_regimeID == '', UInt regimeID, Text '')'', OB 1] (b1\<lparr>regimeIDs := ids\<rparr>))
      else b)"

definition regime_close :: "bool \<Rightarrow> xml_node \<Rightarrow> build \<Rightarrow> build" where
  "regime_close multipleRegimes regime b =
     (let timeDerivative = child regime ''TimeDerivative'';
          b1 = (if \<not> is_null timeDerivative then
                  sim [Text (attribute_value timeDerivative ''variable''), Text '' += DT * ('',
                       Text (child_value timeDerivative ''MathInline''), Text '');'', ENDL] b
                else b)
      in if multipleRegimes then sim [CB 1] b1 else b1)"

fun regimes :: "bool \<Rightarrow> xml_node list \<Rightarrow> build \<Rightarrow> error + build" where
  "regimes multipleRegimes [] b = Inr b"
| "regimes multipleRegimes (regime # rs) b =
     (let regimeName = attribute_value regime ''name'' in
      case conditions multipleRegimes regimeName (children regime ''OnCondition'')
             (regime_open multipleRegimes regimeName b) of
        Inl e \<Rightarrow> Inl e
      | Inr b' \<Rightarrow> regimes multipleRegimes rs (regime_close multipleRegimes regime b'))"

definition SpineMLNeuronModel :: "xml_node option \<Rightarrow> string list \<Rightarrow> error + neuron_model" where
  "SpineMLNeuronModel load_file variableParams =
     (case load_file of
        None \<Rightarrow> Inl CouldNotOpenFile
      | Some doc \<Rightarrow>
          let spineML = child doc ''SpineML'' in
          if is_null spineML then Inl NoSpineMLRoot
          else
            let componentClass = child spineML ''ComponentClass'' in
            if is_null componentClass \<or> attribute_value componentClass ''type'' \<noteq> ''neuron_body''
            then Inl NotNeuronBody
            else
              let dynamics = child componentClass ''Dynamics'';
                  ids = buildRegimeIDs dynamics;
                  multipleRegimes = (length ids > 1);
                  gennVariables = std_set (variableParams @ state_variable_names componentClass);
                  paramNames = filter (\<lambda>paramName. paramName \<notin> set gennVariables)
                                 (parameter_names componentClass);
                  vars = map (\<lambda>vname. (vname, ''scalar'')) gennVariables;
                  vars = (if multipleRegimes then vars @ [(''_regimeID'', ''unsigned int'')] else vars)
              in case regimes multipleRegimes (children dynamics ''Regime'')
                        \<lparr>regimeIDs = ids, simCode = [], thresholdCondition = [], firstRegime = True\<rparr> of
                   Inl e \<Rightarrow> Inl e
                 | Inr b \<Rightarrow>
                     Inr \<lparr>m_ParamNames = paramNames, m_Vars = vars, m_SimCode = simCode b,
                          m_ThresholdConditionCode = thresholdCondition b\<rparr>)"

definition component_of :: "xml_node \<Rightarrow> xml_node" where
  "component_of doc = child (child doc ''SpineML'') ''ComponentClass''"

definition is_neuron_body :: "xml_node \<Rightarrow> bool" where
  "is_neuron_body doc =
     (\<not> is_null (child doc ''SpineML'') \<and> \<not> is_null (component_of doc)
      \<and> attribute_value (component_of doc) ''type'' = ''neuron_body'')"

definition document :: "xml_node \<Rightarrow> xml_node" where
  \<comment> \<open>a loaded \<^verbatim>\<open>xml_document\<close> whose root element is SpineML, holding one component\<close>
  "document componentClass = Element [] [] [Element ''SpineML'' [] [componentClass]]"

definition bare_component :: xml_node where
  "bare_component = Element ''ComponentClass'' [(''name'', ''N''), (''type'', ''neuron_body'')]
     [Element ''Parameter'' [(''name'', ''a'')] []]"

definition synapse_component :: xml_node where
  "synapse_component = Element ''ComponentClass'' [(''name'', ''S''), (''type'', ''weight_update'')] []"

definition stray_condition :: xml_node where
  "stray_condition = Element ''OnCondition'' [(''target_regime'', ''Other'')] []"

definition stray_component :: xml_node where
  "stray_component = Element ''ComponentClass'' [(''name'', ''N''), (''type'', ''neuron_body'')]
     [Element ''Dynamics'' [] [Element ''Regime'' [(''name'', ''A'')] [stray_condition]]]"

definition triggered_condition :: xml_node where
  "triggered_condition = Element ''OnCondition'' [(''target_regime'', ''Other'')]
     [Element ''Trigger'' [] [Element ''MathInline'' [] [PCData ''V > 1'']]]"

definition triggered_regime :: xml_node where
  "triggered_regime = Element ''Regime'' [(''name'', ''A'')] [triggered_condition]"

definition triggered_component :: xml_node where
  "triggered_component = Element ''ComponentClass'' [(''name'', ''N''), (''type'', ''neuron_body'')]
     [Element ''Dynamics'' [] [triggered_regime]]"

definition has_trigger :: "xml_node \<Rightarrow> bool" where
  "has_trigger condition = (\<not> is_null (child (child condition ''Trigger'') ''MathInline''))"

text \<open>
  The sim code of the constructor, regime by regime: the code of a condition, of the
  time derivative, of a regime, and the regimes each inside a guard.
\<close>

definition condition_code :: "regime_ids \<Rightarrow> bool \<Rightarrow> xml_node \<Rightarrow> token list" where
  "condition_code T multipleRegimes condition =
     [Text ''if('', Text (text_get (child (child condition ''Trigger'') ''MathInline'')), Text '')'', OB 2]
     @ state_assignments condition
     @ (if multipleRegimes
        then [Text ''_regimeID = '', UInt (lookup0 T (attribute_value condition ''target_regime'')), Text '';'', ENDL]
        else [])
     @ [CB 2]"

definition derivative_code :: "xml_node \<Rightarrow> token list" where
  "derivative_code regime =
     (if is_null (child regime ''TimeDerivative'') then []
      else [Text (attribute_value (child regime ''TimeDerivative'') ''variable''), Text '' += DT * ('',
            Text (child_value (child regime ''TimeDerivative'') ''MathInline''), Text '');'', ENDL])"

definition regime_code :: "regime_ids \<Rightarrow> bool \<Rightarrow> xml_node \<Rightarrow> token list" where
  "regime_code T multipleRegimes regime =
     concat (map (condition_code T multipleRegimes) (children regime ''OnCondition'')) @ derivative_code regime"

fun every_regime_guarded :: "regime_ids \<Rightarrow> bool \<Rightarrow> xml_node list \<Rightarrow> token list" where
  "every_regime_guarded T first [] = []"
| "every_regime_guarded T first (regime # rs) =
     (if first then [] else [Text ''else ''])
     @ [Text ''if(_regimeID == '', UInt (lookup0 T (attribute_value regime ''name'')), Text '')'', OB 1]
     @ regime_code T True regime
     @ [CB 1]
     @ every_regime_guarded T False rs"


lemmas eval_doc = component_of_def document_def parameter_names_def state_variable_names_def

subsection \<open>Constructor: properties\<close>

lemma onCondition_errors:
  "onCondition multi n c b = Inl e \<Longrightarrow> e = NoTriggerCondition \<or> e = ConditionNotTargetingSelf"
  by (auto simp: onCondition_def Let_def split: if_splits prod.splits)

lemma onCondition_error_with_trigger:
  "has_trigger c \<Longrightarrow> onCondition multi n c b = Inl e \<Longrightarrow> e = ConditionNotTargetingSelf"
  by (auto simp: onCondition_def has_trigger_def Let_def split: if_splits prod.splits)

lemma onCondition_mistargeted:
  "attribute_value c ''target_regime'' \<noteq> n \<Longrightarrow> \<exists>e. onCondition False n c b = Inl e"
  by (simp add: onCondition_def Let_def)

lemma conditions_errors:
  "conditions multi n cs b = Inl e \<Longrightarrow> e = NoTriggerCondition \<or> e = ConditionNotTargetingSelf"
  by (induction cs arbitrary: b) (auto split: sum.splits dest: onCondition_errors)

lemma conditions_error_with_trigger:
  "\<forall>c\<in>set cs. has_trigger c \<Longrightarrow> conditions multi n cs b = Inl e \<Longrightarrow> e = ConditionNotTargetingSelf"
  by (induction cs arbitrary: b) (auto split: sum.splits dest: onCondition_error_with_trigger)

lemma conditions_mistargeted:
  "c \<in> set cs \<Longrightarrow> attribute_value c ''target_regime'' \<noteq> n \<Longrightarrow> \<exists>e. conditions False n cs b = Inl e"
proof (induction cs arbitrary: b)
  case Nil
  then show ?case by simp
next
  case (Cons a cs)
  show ?case
  proof (cases "onCondition False n a b")
    case (Inl e)
    then show ?thesis by simp
  next
    case (Inr b')
    with onCondition_mistargeted [of a n b] have "attribute_value a ''target_regime'' = n" by fastforce
    with Cons.prems have "c \<in> set cs" by auto
    from Cons.IH [OF this Cons.prems(2)] show ?thesis using Inr by simp
  qed
qed

lemma regimes_errors:
  "regimes multi rs b = Inl e \<Longrightarrow> e = NoTriggerCondition \<or> e = ConditionNotTargetingSelf"
  by (induction rs arbitrary: b) (auto simp: Let_def split: sum.splits dest: conditions_errors)

lemma regimes_error_with_trigger:
  "\<forall>r\<in>set rs. \<forall>c\<in>set (children r ''OnCondition''). has_trigger c \<Longrightarrow>
   regimes multi rs b = Inl e \<Longrightarrow> e = ConditionNotTargetingSelf"
  by (induction rs arbitrary: b) (auto simp: Let_def split: sum.splits dest: conditions_error_with_trigger)

lemma regimes_mistargeted:
  "r \<in> set rs \<Longrightarrow> c \<in> set (children r ''OnCondition'') \<Longrightarrow>
   attribute_value c ''target_regime'' \<noteq> attribute_value r ''name'' \<Longrightarrow>
   \<exists>e. regimes False rs b = Inl e"
proof (induction rs arbitrary: b)
  case Nil
  then show ?case by simp
next
  case (Cons a rs)
  let ?n = "attribute_value a ''name''"
  show ?case
  proof (cases "conditions False ?n (children a ''OnCondition'') (regime_open False ?n b)")
    case (Inl e)
    then show ?thesis by (simp add: Let_def)
  next
    case (Inr b')
    have "r \<noteq> a"
    proof
      assume "r = a"
      with Cons.prems conditions_mistargeted [of c "children a ''OnCondition''" ?n "regime_open False ?n b"] Inr
      show False by auto
    qed
    with Cons.prems have "r \<in> set rs" by auto
    from Cons.IH [OF this Cons.prems(2,3)] show ?thesis using Inr by (simp add: Let_def)
  qed
qed

lemma SpineMLNeuronModel_not_neuron_body:
  assumes "\<not> is_null (child doc ''SpineML'')"
    and "is_null (component_of doc) \<or> attribute_value (component_of doc) ''type'' \<noteq> ''neuron_body''"
  shows "SpineMLNeuronModel (Some doc) variableParams = Inl NotNeuronBody"
  using assms by (auto simp: SpineMLNeuronModel_def component_of_def Let_def)

lemma SpineMLNeuronModel_regimes:
  assumes "is_neuron_body doc"
  shows "SpineMLNeuronModel (Some doc) variableParams =
     (case regimes (1 < length (buildRegimeIDs (child (component_of doc) ''Dynamics'')))
             (children (child (component_of doc) ''Dynamics'') ''Regime'')
             \<lparr>regimeIDs = buildRegimeIDs (child (component_of doc) ''Dynamics''), simCode = [],
              thresholdCondition = [], firstRegime = True\<rparr> of
        Inl e \<Rightarrow> Inl e
      | Inr b \<Rightarrow>
          Inr \<lparr>m_ParamNames = fst (findModelVariables (component_of doc) variableParams
                                  (1 < length (buildRegimeIDs (child (component_of doc) ''Dynamics'')))),
               m_Vars = snd (findModelVariables (component_of doc) variableParams
                                  (1 < length (buildRegimeIDs (child (component_of doc) ''Dynamics'')))),
               m_SimCode = simCode b, m_ThresholdConditionCode = thresholdCondition b\<rparr>)"
  using assms
  by (simp add: SpineMLNeuronModel_def is_neuron_body_def component_of_def findModelVariables_def Let_def
      split: sum.splits)

lemma SpineMLNeuronModel_no_dynamics:
  assumes "is_neuron_body doc" and "is_null (child (component_of doc) ''Dynamics'')"
  shows "SpineMLNeuronModel (Some doc) variableParams =
     Inr \<lparr>m_ParamNames = filter (\<lambda>p. p \<notin> set variableParams) (parameter_names (component_of doc)),
          m_Vars = map (\<lambda>v. (v, ''scalar'')) (std_set variableParams),
          m_SimCode = [], m_ThresholdConditionCode = []\<rparr>"
  using assms(2)
  by (simp add: SpineMLNeuronModel_regimes [OF assms(1)] is_null_def buildRegimeIDs_def regime_names_def
      findModelVariables_def state_variable_names_def)

lemma generateModelCode_no_dynamics:
  assumes "is_null (child componentClass ''Dynamics'')"
  shows "generateModelCode componentClass hE hC hI hT regimeEndFunc s = Inr (False, s)"
  using assms by (simp add: generateModelCode_def is_null_def buildRegimeIDs_def regime_names_def)

text \<open>
  Claim C9, as stated, fails: a neuron body component without a Dynamics block is
  read without error, into a model with no code.
\<close>

theorem missing_dynamics_counterexample:
  "is_null (child bare_component ''Dynamics'')
   \<and> SpineMLNeuronModel (Some (document bare_component)) [] =
       Inr \<lparr>m_ParamNames = [''a''], m_Vars = [], m_SimCode = [], m_ThresholdConditionCode = []\<rparr>"
  by (simp add: SpineMLNeuronModel_def bare_component_def eval_xml eval_doc buildRegimeIDs_def std_set_def)

text \<open>
  Claim C9, amended. The constructor fails when the ComponentClass node is missing or
  its type is not \<open>neuron_body\<close>; a missing Dynamics block is no error: the
  constructor returns a model with the classification of the Parameters, no variables
  but the caller's and empty code, and the traversal returns at once, reporting a
  single regime.
\<close>

theorem component_kind_checked_dynamics_not:
  "(\<not> is_null (child doc ''SpineML'')
      \<and> (is_null (component_of doc) \<or> attribute_value (component_of doc) ''type'' \<noteq> ''neuron_body'')
     \<longrightarrow> SpineMLNeuronModel (Some doc) variableParams = Inl NotNeuronBody)
   \<and> (is_neuron_body doc \<and> is_null (child (component_of doc) ''Dynamics'')
     \<longrightarrow> SpineMLNeuronModel (Some doc) variableParams =
           Inr \<lparr>m_ParamNames = filter (\<lambda>p. p \<notin> set variableParams) (parameter_names (component_of doc)),
                m_Vars = map (\<lambda>v. (v, ''scalar'')) (std_set variableParams),
                m_SimCode = [], m_ThresholdConditionCode = []\<rparr>)
   \<and> (is_null (child componentClass ''Dynamics'')
     \<longrightarrow> generateModelCode componentClass hE hC hI hT regimeEndFunc s = Inr (False, s))"
proof (intro conjI impI)
  assume "\<not> is_null (child doc ''SpineML'')
      \<and> (is_null (component_of doc) \<or> attribute_value (component_of doc) ''type'' \<noteq> ''neuron_body'')"
  then show "SpineMLNeuronModel (Some doc) variableParams = Inl NotNeuronBody"
    by (simp add: SpineMLNeuronModel_not_neuron_body)
next
  assume "is_neuron_body doc \<and> is_null (child (component_of doc) ''Dynamics'')"
  then show "SpineMLNeuronModel (Some doc) variableParams =
           Inr \<lparr>m_ParamNames = filter (\<lambda>p. p \<notin> set variableParams) (parameter_names (component_of doc)),
                m_Vars = map (\<lambda>v. (v, ''scalar'')) (std_set variableParams),
                m_SimCode = [], m_ThresholdConditionCode = []\<rparr>"
    by (simp add: SpineMLNeuronModel_no_dynamics)
next
  assume "is_null (child componentClass ''Dynamics'')"
  then show "generateModelCode componentClass hE hC hI hT regimeEndFunc s = Inr (False, s)"
    by (rule generateModelCode_no_dynamics)
qed

theorem component_kind_checked_dynamics_not_witness:
  "SpineMLNeuronModel (Some (document synapse_component)) [] = Inl NotNeuronBody
   \<and> SpineMLNeuronModel (Some (document bare_component)) [''g''] =
       Inr \<lparr>m_ParamNames = [''a''], m_Vars = [(''g'', ''scalar'')], m_SimCode = [],
            m_ThresholdConditionCode = []\<rparr>
   \<and> trace_of bare_component = Inr (False, [])"
proof -
  have k: "\<not> is_null (child (document synapse_component) ''SpineML'')
      \<and> (is_null (component_of (document synapse_component))
          \<or> attribute_value (component_of (document synapse_component)) ''type'' \<noteq> ''neuron_body'')"
    by (simp add: synapse_component_def eval_xml eval_doc)
  have n: "is_neuron_body (document bare_component) \<and> is_null (child (component_of (document bare_component)) ''Dynamics'')"
    by (simp add: is_neuron_body_def bare_component_def eval_xml eval_doc)
  have d: "is_null (child bare_component ''Dynamics'')"
    by (simp add: bare_component_def eval_xml eval_doc)
  have p: "parameter_names (component_of (document bare_component)) = [''a'']"
    by (simp add: bare_component_def eval_xml eval_doc)
  have 1: "SpineMLNeuronModel (Some (document synapse_component)) [] = Inl NotNeuronBody"
    using k component_kind_checked_dynamics_not [of "document synapse_component" "[]", THEN conjunct1] by simp
  have 2: "SpineMLNeuronModel (Some (document bare_component)) [''g''] =
       Inr \<lparr>m_ParamNames = [''a''], m_Vars = [(''g'', ''scalar'')], m_SimCode = [],
            m_ThresholdConditionCode = []\<rparr>"
    using n p component_kind_checked_dynamics_not [of "document bare_component" "[''g'']", THEN conjunct2, THEN conjunct1]
    by (simp add: std_set_def)
  have 3: "trace_of bare_component = Inr (False, [])"
    unfolding trace_of_def
    by (rule component_kind_checked_dynamics_not [THEN conjunct2, THEN conjunct2, rule_format, OF d])
  from 1 2 3 show ?thesis by blast
qed

text \<open>
  Claim C10, as stated, fails: when the condition that targets another regime has no
  trigger, the error thrown is the one of the missing trigger.
\<close>

theorem mistargeted_without_trigger_counterexample:
  "is_neuron_body (document stray_component)
   \<and> regime_names (child stray_component ''Dynamics'') = [''A'']
   \<and> attribute_value stray_condition ''target_regime'' = ''Other''
   \<and> SpineMLNeuronModel (Some (document stray_component)) [] = Inl NoTriggerCondition"
  by (simp add: SpineMLNeuronModel_def is_neuron_body_def stray_component_def stray_condition_def eval_xml eval_doc
      buildRegimeIDs_def map_insert_def to_uint_def regime_open_def map_index_def onCondition_def)

text \<open>
  Claim C10, amended. For a neuron body component with exactly one regime name, if
  some OnCondition targets a regime other than the one that holds it, the constructor
  throws and builds no model; the error is the one of the single-regime target, or
  the one of a missing trigger, and it is the former when every OnCondition has a
  trigger.
\<close>

theorem single_regime_mistargeted_condition:
  assumes "is_neuron_body doc"
    and "card (set (regime_names (child (component_of doc) ''Dynamics''))) = 1"
    and "regime \<in> set (children (child (component_of doc) ''Dynamics'') ''Regime'')"
    and "condition \<in> set (children regime ''OnCondition'')"
    and "attribute_value condition ''target_regime'' \<noteq> attribute_value regime ''name''"
  shows "(SpineMLNeuronModel (Some doc) variableParams = Inl ConditionNotTargetingSelf
          \<or> SpineMLNeuronModel (Some doc) variableParams = Inl NoTriggerCondition)
       \<and> ((\<forall>r\<in>set (children (child (component_of doc) ''Dynamics'') ''Regime'').
              \<forall>c\<in>set (children r ''OnCondition''). has_trigger c)
            \<longrightarrow> SpineMLNeuronModel (Some doc) variableParams = Inl ConditionNotTargetingSelf)"
proof -
  let ?dyn = "child (component_of doc) ''Dynamics''"
  let ?b = "\<lparr>regimeIDs = buildRegimeIDs ?dyn, simCode = [], thresholdCondition = [], firstRegime = True\<rparr>"
  have single: "\<not> 1 < length (buildRegimeIDs ?dyn)"
    using assms(2) by (simp add: buildRegimeIDs_length)
  from regimes_mistargeted [OF assms(3,4,5), of ?b] obtain e where
    e: "regimes False (children ?dyn ''Regime'') ?b = Inl e" by blast
  have res: "SpineMLNeuronModel (Some doc) variableParams = Inl e"
    using e single by (simp add: SpineMLNeuronModel_regimes [OF assms(1)])
  have "e = NoTriggerCondition \<or> e = ConditionNotTargetingSelf"
    using e by (rule regimes_errors)
  moreover have "e = ConditionNotTargetingSelf"
    if "\<forall>r\<in>set (children ?dyn ''Regime''). \<forall>c\<in>set (children r ''OnCondition''). has_trigger c"
    using that e by (rule regimes_error_with_trigger)
  ultimately show ?thesis using res by auto
qed

theorem single_regime_mistargeted_condition_witness:
  "SpineMLNeuronModel (Some (document triggered_component)) [] = Inl ConditionNotTargetingSelf"
proof -
  have dyn: "child (component_of (document triggered_component)) ''Dynamics'' =
      Element ''Dynamics'' [] [triggered_regime]"
    by (simp add: triggered_component_def eval_xml eval_doc)
  have regs: "children (Element ''Dynamics'' [] [triggered_regime]) ''Regime'' = [triggered_regime]"
    by (simp add: triggered_regime_def eval_xml eval_doc)
  have conds: "children triggered_regime ''OnCondition'' = [triggered_condition]"
    by (simp add: triggered_regime_def triggered_condition_def eval_xml eval_doc)
  have 1: "is_neuron_body (document triggered_component)"
    by (simp add: is_neuron_body_def triggered_component_def eval_xml eval_doc)
  have 2: "card (set (regime_names (child (component_of (document triggered_component)) ''Dynamics''))) = 1"
    by (simp add: dyn regime_names_def regs)
  have 3: "triggered_regime \<in> set (children (child (component_of (document triggered_component)) ''Dynamics'') ''Regime'')"
    by (simp add: dyn regs)
  have 4: "triggered_condition \<in> set (children triggered_regime ''OnCondition'')"
    by (simp add: conds)
  have 5: "attribute_value triggered_condition ''target_regime'' \<noteq> attribute_value triggered_regime ''name''"
    by (simp add: triggered_condition_def triggered_regime_def attribute_value_def)
  have 6: "\<forall>r\<in>set (children (child (component_of (document triggered_component)) ''Dynamics'') ''Regime'').
              \<forall>c\<in>set (children r ''OnCondition''). has_trigger c"
    by (simp add: dyn regs conds) (simp add: has_trigger_def triggered_condition_def eval_xml eval_doc)
  from single_regime_mistargeted_condition [OF 1 2 3 4 5, of "[]"] 6 show ?thesis by blast
qed

subsection \<open>The sim code of the constructor\<close>

lemma spike_threshold_sim:
  "same_ids (regimeIDs b) T \<Longrightarrow>
   simCode (spike_threshold n c t b) = simCode b @ [CB 2]
   \<and> same_ids (regimeIDs (spike_threshold n c t b)) T
   \<and> firstRegime (spike_threshold n c t b) = firstRegime b"
proof -
  assume s: "same_ids (regimeIDs b) T"
  obtain i ids where mi: "map_index (regimeIDs b) n = (i, ids)" by (cases "map_index (regimeIDs b) n")
  have "same_ids ids (regimeIDs b)" using map_index_same [of "regimeIDs b" n] mi by simp
  then have "same_ids ids T" using s by (rule same_ids_trans)
  then show ?thesis using s mi by (simp add: spike_threshold_def sim_def Let_def)
qed

lemma onCondition_sim:
  assumes "same_ids (regimeIDs b) T" and "onCondition multi n c b = Inr b'"
  shows "simCode b' = simCode b @ condition_code T multi c
       \<and> same_ids (regimeIDs b') T \<and> firstRegime b' = firstRegime b"
proof -
  let ?trig = "child (child c ''Trigger'') ''MathInline''"
  let ?b1 = "sim ([Text ''if('', Text (text_get ?trig), Text '')'', OB 2] @ state_assignments c) b"
  have nn: "\<not> is_null ?trig" using assms(2) by (auto simp: onCondition_def Let_def split: if_splits)
  have s1: "same_ids (regimeIDs ?b1) T" using assms(1) by (simp add: sim_def)
  show ?thesis
  proof (cases multi)
    case True
    from s1 obtain ids where
      mi: "map_index (regimeIDs ?b1) (attribute_value c ''target_regime'') =
             (lookup0 T (attribute_value c ''target_regime''), ids)"
      and s2: "same_ids ids T" by (rule map_index_cases)
    let ?b2 = "sim [Text ''_regimeID = '', UInt (lookup0 T (attribute_value c ''target_regime'')), Text '';'', ENDL]
                 (?b1\<lparr>regimeIDs := ids\<rparr>)"
    have b': "b' = spike_threshold n c ?trig ?b2"
      using assms(2) nn True mi by (simp add: onCondition_def Let_def)
    have "same_ids (regimeIDs ?b2) T" using s2 by (simp add: sim_def)
    from spike_threshold_sim [OF this, of n c ?trig] show ?thesis
      using True by (simp add: b' condition_code_def sim_def)
  next
    case False
    have b': "b' = spike_threshold n c ?trig ?b1"
      using assms(2) nn False by (simp add: onCondition_def Let_def split: if_splits)
    from spike_threshold_sim [OF s1, of n c ?trig] show ?thesis
      using False by (simp add: b' condition_code_def sim_def)
  qed
qed

lemma conditions_sim:
  "same_ids (regimeIDs b) T \<Longrightarrow> conditions multi n cs b = Inr b' \<Longrightarrow>
   simCode b' = simCode b @ concat (map (condition_code T multi) cs)
   \<and> same_ids (regimeIDs b') T \<and> firstRegime b' = firstRegime b"
proof (induction cs arbitrary: b)
  case Nil
  then show ?case by simp
next
  case (Cons c cs)
  from Cons.prems(2) obtain b1 where c1: "onCondition multi n c b = Inr b1"
    and rest: "conditions multi n cs b1 = Inr b'" by (auto split: sum.splits)
  from onCondition_sim [OF Cons.prems(1) c1] have
    1: "simCode b1 = simCode b @ condition_code T multi c" "same_ids (regimeIDs b1) T"
       "firstRegime b1 = firstRegime b" by simp_all
  from Cons.IH [OF 1(2) rest] show ?case using 1 by simp
qed

lemma regime_open_sim:
  assumes "same_ids (regimeIDs b) T"
  shows "simCode (regime_open multi n b) =
           simCode b @ (if multi then (if firstRegime b then [] else [Text ''else ''])
                                      @ [Text ''if(_regimeID == '', UInt (lookup0 T n), Text '')'', OB 1]
                        else [])
       \<and> same_ids (regimeIDs (regime_open multi n b)) T
       \<and> firstRegime (regime_open multi n b) = (firstRegime b \<and> \<not> multi)"
proof -
  let ?ids0 = "snd (map_index (regimeIDs b) n)"
  have s0: "same_ids ?ids0 T" using map_index_same assms by (rule same_ids_trans)
  from s0 obtain ids where mi: "map_index ?ids0 n = (lookup0 T n, ids)" and s1: "same_ids ids T"
    by (rule map_index_cases)
  show ?thesis using s0 s1 mi by (simp add: regime_open_def sim_def Let_def)
qed

lemma regime_close_sim:
  "simCode (regime_close multi r b) = simCode b @ derivative_code r @ (if multi then [CB 1] else [])
   \<and> regimeIDs (regime_close multi r b) = regimeIDs b
   \<and> firstRegime (regime_close multi r b) = firstRegime b"
  by (simp add: regime_close_def derivative_code_def sim_def Let_def)

lemma regimes_sim_multi:
  "same_ids (regimeIDs b) T \<Longrightarrow> regimes True rs b = Inr b' \<Longrightarrow>
   simCode b' = simCode b @ every_regime_guarded T (firstRegime b) rs"
proof (induction rs arbitrary: b)
  case Nil
  then show ?case by simp
next
  case (Cons r rs)
  let ?n = "attribute_value r ''name''"
  let ?b0 = "regime_open True ?n b"
  from Cons.prems(2) obtain b1 where c1: "conditions True ?n (children r ''OnCondition'') ?b0 = Inr b1"
    and rest: "regimes True rs (regime_close True r b1) = Inr b'"
    by (auto simp: Let_def split: sum.splits)
  note o = regime_open_sim [OF Cons.prems(1), of True ?n]
  from conditions_sim [OF _ c1, of T] o have
    1: "simCode b1 = simCode ?b0 @ concat (map (condition_code T True) (children r ''OnCondition''))"
       "same_ids (regimeIDs b1) T" "firstRegime b1 = firstRegime ?b0" by simp_all
  note c = regime_close_sim [of True r b1]
  have "same_ids (regimeIDs (regime_close True r b1)) T" using c 1(2) by simp
  from Cons.IH [OF this rest] show ?case
    using o 1 c by (simp add: regime_code_def)
qed

lemma regimes_sim_single:
  "same_ids (regimeIDs b) T \<Longrightarrow> regimes False rs b = Inr b' \<Longrightarrow>
   simCode b' = simCode b @ concat (map (regime_code T False) rs)"
proof (induction rs arbitrary: b)
  case Nil
  then show ?case by simp
next
  case (Cons r rs)
  let ?n = "attribute_value r ''name''"
  let ?b0 = "regime_open False ?n b"
  from Cons.prems(2) obtain b1 where c1: "conditions False ?n (children r ''OnCondition'') ?b0 = Inr b1"
    and rest: "regimes False rs (regime_close False r b1) = Inr b'"
    by (auto simp: Let_def split: sum.splits)
  note o = regime_open_sim [OF Cons.prems(1), of False ?n]
  from conditions_sim [OF _ c1, of T] o have
    1: "simCode b1 = simCode ?b0 @ concat (map (condition_code T False) (children r ''OnCondition''))"
       "same_ids (regimeIDs b1) T" "firstRegime b1 = firstRegime ?b0" by simp_all
  note c = regime_close_sim [of False r b1]
  have "same_ids (regimeIDs (regime_close False r b1)) T" using c 1(2) by simp
  from Cons.IH [OF this rest] show ?case
    using o 1 c by (simp add: regime_code_def)
qed

lemma SpineMLNeuronModel_sim:
  assumes "SpineMLNeuronModel (Some doc) variableParams = Inr model"
  shows "m_SimCode model =
     (if 1 < card (set (regime_names (child (component_of doc) ''Dynamics'')))
      then every_regime_guarded (buildRegimeIDs (child (component_of doc) ''Dynamics'')) True
             (children (child (component_of doc) ''Dynamics'') ''Regime'')
      else concat (map (regime_code (buildRegimeIDs (child (component_of doc) ''Dynamics'')) False)
             (children (child (component_of doc) ''Dynamics'') ''Regime'')))"
proof -
  let ?dyn = "child (component_of doc) ''Dynamics''"
  let ?b = "\<lparr>regimeIDs = buildRegimeIDs ?dyn, simCode = [], thresholdCondition = [], firstRegime = True\<rparr>"
  have nb: "is_neuron_body doc"
    using assms by (auto simp: SpineMLNeuronModel_def is_neuron_body_def component_of_def Let_def split: if_splits)
  from assms obtain b' where r: "regimes (1 < length (buildRegimeIDs ?dyn)) (children ?dyn ''Regime'') ?b = Inr b'"
    and m: "m_SimCode model = simCode b'"
    by (auto simp: SpineMLNeuronModel_regimes [OF nb] split: sum.splits)
  have s: "same_ids (regimeIDs ?b) (buildRegimeIDs ?dyn)" by simp
  show ?thesis
  proof (cases "1 < length (buildRegimeIDs ?dyn)")
    case True
    with r have "regimes True (children ?dyn ''Regime'') ?b = Inr b'" by simp
    from regimes_sim_multi [OF s this] show ?thesis using True m by (simp add: buildRegimeIDs_length)
  next
    case False
    with r have "regimes False (children ?dyn ''Regime'') ?b = Inr b'" by simp
    from regimes_sim_single [OF s this] show ?thesis using False m by (simp add: buildRegimeIDs_length)
  qed
qed

text \<open>
  Claim C4. A regime that emits no code should contribute no guard and no text, as
  it does in the code assembler. The neuron model constructor writes the guard at the
  start of every regime of a component with several regimes, before it knows whether
  the regime emits code: regime A of this component emits nothing and is written as
  an empty guarded block, where the assembler, on the same component, writes the
  guard of regime B alone.
\<close>

theorem constructor_guards_empty_regime:
  "regime_code (buildRegimeIDs (child decay_component ''Dynamics'')) True (Element ''Regime'' [(''name'', ''A'')] []) = []
   \<and> SpineMLNeuronModel (Some (document decay_component)) [] =
       Inr \<lparr>m_ParamNames = [], m_Vars = [(''_regimeID'', ''unsigned int'')],
            m_SimCode =
              [Text ''if(_regimeID == '', UInt 0, Text '')'', OB 1, CB 1,
               Text ''else '', Text ''if(_regimeID == '', UInt 1, Text '')'', OB 1,
               Text ''V'', Text '' += DT * ('', Text ''-V'', Text '');'', ENDL, CB 1],
            m_ThresholdConditionCode = []\<rparr>
   \<and> generate_to_stream (emit_text []) (emit_text []) (emit_text []) (emit_text ''V += DT * (-V);'')
         decay_component =
       Inr (True,
            \<lparr>m_CodeStream = [Text ''if(_regimeID == '', UInt 1, Text '')'', OB 1, Text ''V += DT * (-V);'', CB 1],
             m_CurrentRegimeStream = [], m_FirstNonEmptyRegime = False\<rparr>)"
proof (intro conjI)
  show "regime_code (buildRegimeIDs (child decay_component ''Dynamics'')) True
          (Element ''Regime'' [(''name'', ''A'')] []) = []"
    by (simp add: regime_code_def derivative_code_def eval_xml)
next
  show "SpineMLNeuronModel (Some (document decay_component)) [] =
       Inr \<lparr>m_ParamNames = [], m_Vars = [(''_regimeID'', ''unsigned int'')],
            m_SimCode =
              [Text ''if(_regimeID == '', UInt 0, Text '')'', OB 1, CB 1,
               Text ''else '', Text ''if(_regimeID == '', UInt 1, Text '')'', OB 1,
               Text ''V'', Text '' += DT * ('', Text ''-V'', Text '');'', ENDL, CB 1],
            m_ThresholdConditionCode = []\<rparr>"
    by (simp add: SpineMLNeuronModel_def decay_component_def decay_def eval_xml eval_doc buildRegimeIDs_def
        map_insert_def to_uint_def std_set_def regime_open_def regime_close_def map_index_def sim_def)
next
  show "generate_to_stream (emit_text []) (emit_text []) (emit_text []) (emit_text ''V += DT * (-V);'')
         decay_component =
       Inr (True,
            \<lparr>m_CodeStream = [Text ''if(_regimeID == '', UInt 1, Text '')'', OB 1, Text ''V += DT * (-V);'', CB 1],
             m_CurrentRegimeStream = [], m_FirstNonEmptyRegime = False\<rparr>)"
  proof -
    have "generate_to_stream (emit_text []) (emit_text []) (emit_text []) (emit_text ''V += DT * (-V);'')
            decay_component =
          Inr (1 < length (buildRegimeIDs (child decay_component ''Dynamics'')),
               assemble (1 < length (buildRegimeIDs (child decay_component ''Dynamics'')))
                 (map (regime_text (emit_text []) (emit_text []) (emit_text []) (emit_text ''V += DT * (-V);'')
                         (buildRegimeIDs (child decay_component ''Dynamics'')))
                    (children (child decay_component ''Dynamics'') ''Regime''))
                 new_code_stream)"
      by (simp add: generate_to_stream_def generateModelCode_seq seq_write_regimes)
    then show ?thesis
      by (simp add: new_code_stream_def onRegimeEnd_def write_regime_def put_def Let_def
          decay_component_def decay_def eval_xml buildRegimeIDs_def map_insert_def to_uint_def
          regime_text_def lookup0_def map_index_def emit_text_def)
  qed
qed

end
